theory Spec2Isabelle
  imports Main "HOL-Library.AList"
begin

section \<open>Parallel execution with dependencies (compose/parallel.py)\<close>

text \<open>
  The module runs a work function on a list of objects, one thread per object, and
  starts an object only after its dependencies have been processed. The embedding
  follows the module function by function. Threads and the results queue are modelled
  by a transition system: a step is either a step of the coordinating generator
  (\<open>parallel_execute_iter\<close>) or the completion of one producer thread.
\<close>

subsection \<open>Exceptions, events and the results queue\<close>

text \<open>
  The exception classes the module tells apart: \<open>APIError\<close> (with its
  \<open>explanation\<close>), \<open>OperationFailedError\<close> (with its \<open>msg\<close>),
  \<open>UpstreamError\<close>, and any other exception object.
\<close>

datatype 'x exn =
    APIError string
  | OperationFailedError string
  | UpstreamError
  | OtherError 'x

text \<open>
  The tuples put on the queue, \<open>(obj, result, exception)\<close>, with Python's
  \<open>None\<close> as \<open>None\<close>; the queue also carries the sentinel \<open>STOP\<close>.
\<close>

type_synonym ('a, 'r, 'x) event = "'a \<times> 'r option \<times> 'x exn option"

datatype ('a, 'r, 'x) item = Event "('a, 'r, 'x) event" | STOP

fun ev_obj :: "('a, 'r, 'x) event \<Rightarrow> 'a" where
  "ev_obj (obj, result, exception) = obj"

fun ev_exception :: "('a, 'r, 'x) event \<Rightarrow> 'x exn option" where
  "ev_exception (obj, result, exception) = exception"

subsection \<open>ParallelStreamWriter\<close>

text \<open>
  The output stream is the list of the calls made on it. \<open>write\<close> raises
  \<open>ValueError\<close> when \<open>lines.index\<close> does not find the name.
\<close>

datatype stream_op = SWrite string | SFlush

datatype py_error = ValueError

record writer =
  stream :: "stream_op list"
  msg :: "string option"
  lines :: "string list"

definition ESC :: char where
  "ESC = CHR 0x1B"

definition CR :: char where
  "CR = CHR 0x0D"

definition LF :: char where
  "LF = CHR 0x0A"

text \<open>Python's \<open>%d\<close> for a natural number: its decimal digits.\<close>

definition digit_char :: "nat \<Rightarrow> char" where
  "digit_char d = ''0123456789'' ! d"

function show_nat :: "nat \<Rightarrow> string" where
  "show_nat n = (if n < 10 then [digit_char n] else show_nat (n div 10) @ [digit_char (n mod 10)])"
  by pat_completeness auto
termination
  by (relation "measure id") auto

declare show_nat.simps [simp del]

text \<open>\<open>list.index\<close>: the position of the first occurrence, or \<open>ValueError\<close>.\<close>

fun index_of :: "'a list \<Rightarrow> 'a \<Rightarrow> py_error + nat" where
  "index_of [] x = Inl ValueError"
| "index_of (y # ys) x =
     (if y = x then Inr 0
      else case index_of ys x of Inl e \<Rightarrow> Inl e | Inr i \<Rightarrow> Inr (Suc i))"

definition ParallelStreamWriter :: "stream_op list \<Rightarrow> string option \<Rightarrow> writer" where
  "ParallelStreamWriter st m = \<lparr>stream = st, msg = m, lines = []\<rparr>"

definition initialize :: "writer \<Rightarrow> string \<Rightarrow> writer" where
  "initialize w obj_index =
     (case msg w of
        None \<Rightarrow> w
      | Some m \<Rightarrow>
          w\<lparr>lines := lines w @ [obj_index],
            stream := stream w @
              [SWrite (m @ '' '' @ obj_index @ '' ... '' @ [CR, LF]), SFlush]\<rparr>)"

definition writer_write :: "writer \<Rightarrow> string \<Rightarrow> string \<Rightarrow> py_error + writer" where
  "writer_write w obj_index status =
     (case msg w of
        None \<Rightarrow> Inr w
      | Some m \<Rightarrow>
          (case index_of (lines w) obj_index of
             Inl e \<Rightarrow> Inl e
           | Inr position \<Rightarrow>
               (let diff = length (lines w) - position in
                Inr (w\<lparr>stream := stream w @
                  [SWrite ([ESC] @ ''['' @ show_nat diff @ ''A''),
                   SWrite ([ESC] @ ''[2K'' @ [CR]),
                   SWrite (m @ '' '' @ obj_index @ '' ... '' @ status @ [CR]),
                   SWrite ([ESC] @ ''['' @ show_nat diff @ ''B''),
                   SFlush]\<rparr>))))"

text \<open>The position of the first registration of a name, as a specification.\<close>

definition first_index :: "'a list \<Rightarrow> 'a \<Rightarrow> nat" where
  "first_index xs x = length (takeWhile (\<lambda>y. y \<noteq> x) xs)"


subsection \<open>State\<close>

text \<open>
  The class \<open>State\<close>: the list of objects and three sets. \<open>len\<close> of a set is
  \<open>card\<close>; \<open>len(self.objects)\<close> is the length of the list as given.
\<close>

record 'a State =
  objects :: "'a list"
  started :: "'a set"
  finished :: "'a set"
  failed :: "'a set"

definition is_done :: "('a, 'z) State_scheme \<Rightarrow> bool" where
  "is_done st = (length (objects st) \<le> card (finished st) + card (failed st))"

definition pending :: "('a, 'z) State_scheme \<Rightarrow> 'a set" where
  "pending st = set (objects st) - started st - finished st - failed st"

subsection \<open>The running system\<close>

text \<open>
  What \<open>parallel_execute_iter\<close> holds while it runs: the \<open>State\<close>, the queue
  \<open>results\<close>, the producer threads that were started and have not yet put their
  tuple (\<open>threads\<close>), and the point the generator is at: before \<open>feed_queue\<close>
  (\<open>AtFeed\<close>), before \<open>results.get\<close> (\<open>AtGet\<close>), after \<open>break\<close>
  (\<open>Done\<close>), or after raising \<open>ShutdownException\<close> (\<open>Shutdown\<close>).
  Three histories record what happened: the events yielded so far, the objects for which
  a thread was started, and the objects on which \<open>func\<close> was called.
\<close>

datatype control = AtFeed | AtGet | Done | Shutdown

record ('a, 'r, 'x) sys = "'a State" +
  results :: "('a, 'r, 'x) item list"
  threads :: "'a list"
  pc :: control
  yielded :: "('a, 'r, 'x) event list"
  launched :: "'a list"
  invoked :: "'a list"

definition init :: "'a list \<Rightarrow> ('a, 'r, 'x) sys" where
  "init objs =
     \<lparr>objects = objs, started = {}, finished = {}, failed = {},
      results = [], threads = [], pc = AtFeed, yielded = [], launched = [], invoked = []\<rparr>"

text \<open>\<open>_no_deps\<close>, and the default taken when \<open>get_deps\<close> is \<open>None\<close>.\<close>

definition no_deps :: "'a \<Rightarrow> 'a list" where
  "no_deps x = []"

definition deps_or_default :: "('a \<Rightarrow> 'a list) option \<Rightarrow> 'a \<Rightarrow> 'a list" where
  "deps_or_default get_deps = (case get_deps of None \<Rightarrow> no_deps | Some g \<Rightarrow> g)"

subsection \<open>feed\_queue\<close>

text \<open>
  One iteration of the loop \<open>for obj in pending\<close>: \<open>any(...)\<close> is \<open>list_ex\<close>,
  \<open>all(...)\<close> is \<open>list_all\<close>. Starting the thread adds it to \<open>threads\<close>.
\<close>

definition feed_obj ::
  "'a list \<Rightarrow> ('a \<Rightarrow> 'a list) \<Rightarrow> 'a \<Rightarrow> ('a, 'r, 'x) sys \<Rightarrow> ('a, 'r, 'x) sys" where
  "feed_obj objs get_deps obj s =
     (let deps = get_deps obj in
      if list_ex (\<lambda>dep. dep \<in> failed s) deps then
        s\<lparr>results := results s @ [Event (obj, None, Some UpstreamError)],
          failed := insert obj (failed s)\<rparr>
      else if list_all (\<lambda>dep. dep \<notin> set objs \<or> dep \<in> finished s) deps then
        s\<lparr>threads := threads s @ [obj],
          launched := launched s @ [obj],
          started := insert obj (started s)\<rparr>
      else s)"

text \<open>The loop over the pending objects, in the order the set is iterated.\<close>

fun feed_loop ::
  "'a list \<Rightarrow> ('a \<Rightarrow> 'a list) \<Rightarrow> 'a list \<Rightarrow> ('a, 'r, 'x) sys \<Rightarrow> ('a, 'r, 'x) sys" where
  "feed_loop objs get_deps [] s = s"
| "feed_loop objs get_deps (obj # rest) s = feed_loop objs get_deps rest (feed_obj objs get_deps obj s)"

text \<open>
  \<open>feed_queue\<close>. Python iterates the set \<open>pending\<close> in an order of its own; the
  order is the argument \<open>order\<close>, a list of the pending objects without repetition.
\<close>

definition feed_queue ::
  "'a list \<Rightarrow> ('a \<Rightarrow> 'a list) \<Rightarrow> 'a list \<Rightarrow> ('a, 'r, 'x) sys \<Rightarrow> ('a, 'r, 'x) sys" where
  "feed_queue objs get_deps order s =
     (let s' = feed_loop objs get_deps order s in
      if is_done s' then s'\<lparr>results := results s' @ [STOP]\<rparr> else s')"

subsection \<open>producer\<close>

text \<open>
  How a call of the work function ends: it returns a result, it raises an exception
  that \<open>except Exception\<close> catches, or it raises one that this clause does not
  catch (\<open>SystemExit\<close>, \<open>KeyboardInterrupt\<close>, \<open>GeneratorExit\<close> or
  another \<open>BaseException\<close> outside \<open>Exception\<close>). A call that never ends is
  a thread that never takes its step.
\<close>

datatype ('r, 'x) call = Returns 'r | Raises "'x exn" | Escapes

fun returned :: "('r, 'x) call \<Rightarrow> bool" where
  "returned (Returns result) = True"
| "returned c = False"

fun raised :: "('r, 'x) call \<Rightarrow> bool" where
  "raised (Raises e) = True"
| "raised c = False"

text \<open>
  A producer thread calls the work function and puts one tuple on the queue when the
  call returns or raises an \<open>Exception\<close>. An exception that escapes the
  \<open>try\<close> statement ends the thread with nothing put on the queue.
\<close>

definition producer ::
  "('a \<Rightarrow> ('r, 'x) call) \<Rightarrow> 'a \<Rightarrow> ('a, 'r, 'x) sys \<Rightarrow> ('a, 'r, 'x) sys" where
  "producer func obj s =
     (let s' = s\<lparr>threads := remove1 obj (threads s), invoked := invoked s @ [obj]\<rparr> in
      case func obj of
        Returns result \<Rightarrow> s'\<lparr>results := results s' @ [Event (obj, Some result, None)]\<rparr>
      | Raises e \<Rightarrow> s'\<lparr>results := results s' @ [Event (obj, None, Some e)]\<rparr>
      | Escapes \<Rightarrow> s')"

subsection \<open>parallel\_execute\_iter\<close>

text \<open>
  The second half of the loop body: \<open>results.get(timeout=0.1)\<close> and what follows.
  An empty queue gives \<open>Empty\<close> and \<open>continue\<close>; \<open>STOP\<close> breaks; an event
  updates the state and is yielded. A \<open>get\<close> on a queue that holds an item returns
  its head, so \<open>Empty\<close> is raised on an empty queue only; an item put while the
  call waits is a producer step taken before this one.
\<close>

definition get_event :: "('a, 'r, 'x) sys \<Rightarrow> ('a, 'r, 'x) sys" where
  "get_event s =
     (case results s of
        [] \<Rightarrow> s\<lparr>pc := AtFeed\<rparr>
      | STOP # q \<Rightarrow> s\<lparr>results := q, pc := Done\<rparr>
      | Event (obj, result, exception) # q \<Rightarrow>
          (if exception = None
           then s\<lparr>results := q, finished := insert obj (finished s),
                  yielded := yielded s @ [(obj, result, exception)], pc := AtFeed\<rparr>
           else s\<lparr>results := q, failed := insert obj (failed s),
                  yielded := yielded s @ [(obj, result, exception)], pc := AtFeed\<rparr>))"

text \<open>
  The steps of the system. \<open>Feed order\<close>: the generator runs \<open>feed_queue\<close>,
  iterating the pending set in the given order. \<open>Get\<close>: the generator returns from
  \<open>results.get\<close>. \<open>Work obj\<close>: the producer thread of \<open>obj\<close> runs to its end.
  \<open>Interrupt\<close>: \<open>results.get\<close> raises \<open>thread.error\<close> and the generator raises
  \<open>ShutdownException\<close>. A step that cannot be taken gives \<open>None\<close>.
  A pass of \<open>feed_queue\<close> is one step: only the generator reads and writes the
  scheduling state, and the producers only append to the queue, so a producer step
  taken during a pass gives the state of the same step taken right before or right
  after it, up to the order of the queue.
\<close>

datatype 'a action = Feed "'a list" | Get | Work 'a | Interrupt

fun step ::
  "('a \<Rightarrow> ('r, 'x) call) \<Rightarrow> ('a \<Rightarrow> 'a list) \<Rightarrow> 'a action \<Rightarrow> ('a, 'r, 'x) sys
     \<Rightarrow> ('a, 'r, 'x) sys option" where
  "step func get_deps (Feed order) s =
     (if pc s = AtFeed \<and> distinct order \<and> set order = pending s
      then Some ((feed_queue (objects s) get_deps order s)\<lparr>pc := AtGet\<rparr>)
      else None)"
| "step func get_deps Get s =
     (if pc s = AtGet then Some (get_event s) else None)"
| "step func get_deps (Work obj) s =
     (if obj \<in> set (threads s) then Some (producer func obj s) else None)"
| "step func get_deps Interrupt s =
     (if pc s = AtGet then Some (s\<lparr>pc := Shutdown\<rparr>) else None)"

text \<open>The states a run can be in.\<close>

inductive reachable ::
  "('a \<Rightarrow> ('r, 'x) call) \<Rightarrow> ('a \<Rightarrow> 'a list) \<Rightarrow> 'a list \<Rightarrow> ('a, 'r, 'x) sys \<Rightarrow> bool"
  for func get_deps objs where
  reach_init: "reachable func get_deps objs (init objs)"
| reach_step: "reachable func get_deps objs s \<Longrightarrow> step func get_deps a s = Some s'
     \<Longrightarrow> reachable func get_deps objs s'"

text \<open>A finite schedule, run from a state; a step that cannot be taken is skipped.\<close>

fun run ::
  "('a \<Rightarrow> ('r, 'x) call) \<Rightarrow> ('a \<Rightarrow> 'a list) \<Rightarrow> 'a action list \<Rightarrow> ('a, 'r, 'x) sys
     \<Rightarrow> ('a, 'r, 'x) sys" where
  "run func get_deps [] s = s"
| "run func get_deps (a # as) s =
     run func get_deps as (case step func get_deps a s of None \<Rightarrow> s | Some s' \<Rightarrow> s')"

text \<open>An infinite schedule \<open>sched\<close>: the state after its first \<open>n\<close> steps.\<close>

fun exec ::
  "('a \<Rightarrow> ('r, 'x) call) \<Rightarrow> ('a \<Rightarrow> 'a list) \<Rightarrow> 'a list \<Rightarrow> (nat \<Rightarrow> 'a action) \<Rightarrow> nat
     \<Rightarrow> ('a, 'r, 'x) sys" where
  "exec func get_deps objs sched 0 = init objs"
| "exec func get_deps objs sched (Suc n) =
     (let s = exec func get_deps objs sched n in
      case step func get_deps (sched n) s of None \<Rightarrow> s | Some s' \<Rightarrow> s')"


subsection \<open>parallel\_execute\<close>

text \<open>
  The dictionary \<open>errors\<close> maps a name to what the loop stored under it: the
  explanation of an \<open>APIError\<close> or the message of an \<open>OperationFailedError\<close>, which
  are texts, or, in the last branch, the exception object itself. It is an association
  list in insertion order; an assignment to a name already present replaces the entry
  where it stands. \<open>format\<close> renders a text as it is and an exception object by
  Python's \<open>str\<close>, the parameter \<open>str_of\<close>.
\<close>

datatype 'x errval = ErrText string | ErrExc "'x exn"

fun render :: "('x exn \<Rightarrow> string) \<Rightarrow> 'x errval \<Rightarrow> string" where
  "render str_of (ErrText t) = t"
| "render str_of (ErrExc e) = str_of e"

text \<open>The local variables of \<open>parallel_execute\<close> while it drains the events.\<close>

record ('r, 'x) locals =
  out :: writer
  results_list :: "'r option list"
  errors :: "(string \<times> 'x errval) list"
  error_to_reraise :: "'x exn option"

text \<open>
  The body of the loop \<open>for obj, result, exception in events\<close>, with the branches in
  the order of the source. \<open>writer.write\<close> may raise \<open>ValueError\<close>, which ends the
  function.
\<close>

fun handle_event ::
  "('a \<Rightarrow> string) \<Rightarrow> ('a, 'r, 'x) event \<Rightarrow> ('r, 'x) locals \<Rightarrow> py_error + ('r, 'x) locals" where
  "handle_event get_name (obj, result, None) l =
     (case writer_write (out l) (get_name obj) ''done'' of
        Inl e \<Rightarrow> Inl e
      | Inr w \<Rightarrow> Inr (l\<lparr>out := w, results_list := results_list l @ [result]\<rparr>))"
| "handle_event get_name (obj, result, Some (APIError explanation)) l =
     (case writer_write (out l) (get_name obj) ''error'' of
        Inl e \<Rightarrow> Inl e
      | Inr w \<Rightarrow>
          Inr (l\<lparr>errors := AList.update (get_name obj) (ErrText explanation) (errors l),
                out := w\<rparr>))"
| "handle_event get_name (obj, result, Some (OperationFailedError m)) l =
     (case writer_write (out l) (get_name obj) ''error'' of
        Inl e \<Rightarrow> Inl e
      | Inr w \<Rightarrow>
          Inr (l\<lparr>errors := AList.update (get_name obj) (ErrText m) (errors l), out := w\<rparr>))"
| "handle_event get_name (obj, result, Some UpstreamError) l =
     (case writer_write (out l) (get_name obj) ''error'' of
        Inl e \<Rightarrow> Inl e
      | Inr w \<Rightarrow> Inr (l\<lparr>out := w\<rparr>))"
| "handle_event get_name (obj, result, Some (OtherError x)) l =
     Inr (l\<lparr>errors := AList.update (get_name obj) (ErrExc (OtherError x)) (errors l),
           error_to_reraise := Some (OtherError x)\<rparr>)"

text \<open>The loop over the events; an exception ends it with the stream as it is then.\<close>

fun drain ::
  "('a \<Rightarrow> string) \<Rightarrow> ('a, 'r, 'x) event list \<Rightarrow> ('r, 'x) locals
     \<Rightarrow> (py_error \<times> stream_op list) + ('r, 'x) locals" where
  "drain get_name [] l = Inr l"
| "drain get_name (ev # evs) l =
     (case handle_event get_name ev l of
        Inl e \<Rightarrow> Inl (e, stream (out l))
      | Inr l' \<Rightarrow> drain get_name evs l')"

definition error_line :: "('x exn \<Rightarrow> string) \<Rightarrow> string \<times> 'x errval \<Rightarrow> stream_op" where
  "error_line str_of entry =
     SWrite ([LF] @ ''ERROR: for '' @ fst entry @ ''  '' @ render str_of (snd entry) @ [LF])"

text \<open>How a call of \<open>parallel_execute\<close> ends.\<close>

datatype ('r, 'x) ending =
    Returned "'r option list" "(string \<times> 'x errval) list"
  | Raised "'x exn"
  | RaisedError py_error

text \<open>
  The local variables before the loop: the writer with one line registered for each
  object, in the order of the list, and nothing recorded.
\<close>

definition before_loop ::
  "'a list \<Rightarrow> ('a \<Rightarrow> string) \<Rightarrow> string option \<Rightarrow> ('r, 'x) locals" where
  "before_loop objs get_name m =
     \<lparr>out = foldl initialize (ParallelStreamWriter [] m) (map get_name objs),
      results_list = [], errors = [], error_to_reraise = None\<rparr>"

text \<open>
  \<open>parallel_execute\<close>, given the events that \<open>parallel_execute_iter\<close> yields: the
  final content of the stream and the way the call ends. The test
  \<open>if error_to_reraise\<close> takes the truth value of the exception object, which a
  class may define (\<open>__bool__\<close>, \<open>__nonzero__\<close>, \<open>__len__\<close>): it is the
  parameter \<open>truthy\<close>, as \<open>str_of\<close> is Python's \<open>str\<close>. The summary lines
  follow the order in which the names entered \<open>errors\<close>.
\<close>

definition parallel_execute ::
  "'a list \<Rightarrow> ('a \<Rightarrow> string) \<Rightarrow> string option \<Rightarrow> ('x exn \<Rightarrow> string) \<Rightarrow> ('x exn \<Rightarrow> bool)
     \<Rightarrow> ('a, 'r, 'x) event list \<Rightarrow> stream_op list \<times> ('r, 'x) ending" where
  "parallel_execute objs get_name m str_of truthy events =
     (case drain get_name events (before_loop objs get_name m) of
        Inl (e, st) \<Rightarrow> (st, RaisedError e)
      | Inr l \<Rightarrow>
          (stream (out l) @ map (error_line str_of) (errors l),
           case error_to_reraise l of
             None \<Rightarrow> Returned (results_list l) (errors l)
           | Some e \<Rightarrow>
               if truthy e then Raised e else Returned (results_list l) (errors l)))"


subsection \<open>Where an object is in its life\<close>

text \<open>The events of a queue, without the sentinels, and the events of one object.\<close>

fun q_events :: "('a, 'r, 'x) item list \<Rightarrow> ('a, 'r, 'x) event list" where
  "q_events [] = []"
| "q_events (Event e # q) = e # q_events q"
| "q_events (STOP # q) = q_events q"

definition evs_of :: "'a \<Rightarrow> ('a, 'r, 'x) event list \<Rightarrow> ('a, 'r, 'x) event list" where
  "evs_of obj es = filter (\<lambda>e. ev_obj e = obj) es"

text \<open>
  Everything the system holds about one object: its membership in the three sets, the
  number of its running threads, its events on the queue, its events yielded, the number
  of threads started for it and the number of calls of the work function on it.
\<close>

definition footprint ::
  "('a, 'r, 'x) sys \<Rightarrow> 'a
     \<Rightarrow> bool \<times> bool \<times> bool \<times> nat \<times> ('a, 'r, 'x) event list \<times> ('a, 'r, 'x) event list \<times> nat \<times> nat" where
  "footprint s obj =
     (obj \<in> started s, obj \<in> finished s, obj \<in> failed s, count_list (threads s) obj,
      evs_of obj (q_events (results s)), evs_of obj (yielded s),
      count_list (launched s) obj, count_list (invoked s) obj)"

text \<open>
  What the producer thread of an object puts on the queue: one tuple, or nothing when
  the exception of the work function escapes.
\<close>

definition outcome :: "('a \<Rightarrow> ('r, 'x) call) \<Rightarrow> 'a \<Rightarrow> ('a, 'r, 'x) event list" where
  "outcome func obj =
     (case func obj of
        Returns result \<Rightarrow> [(obj, Some result, None)]
      | Raises e \<Rightarrow> [(obj, None, Some e)]
      | Escapes \<Rightarrow> [])"

text \<open>
  The six phases of an object, and the footprint of each: not yet looked at (or left
  pending), thread running, thread ended and what it put still on the queue, tuple of
  the thread yielded, upstream failure on the queue, upstream failure yielded. An object
  whose thread ended with nothing put stays in the third phase for ever.
\<close>

datatype phase = Pending | Running | Queued | Yielded | UpQueued | UpYielded

fun expected ::
  "('a \<Rightarrow> ('r, 'x) call) \<Rightarrow> 'a \<Rightarrow> phase
     \<Rightarrow> bool \<times> bool \<times> bool \<times> nat \<times> ('a, 'r, 'x) event list \<times> ('a, 'r, 'x) event list \<times> nat \<times> nat" where
  "expected func obj Pending = (False, False, False, 0, [], [], 0, 0)"
| "expected func obj Running = (True, False, False, 1, [], [], 1, 0)"
| "expected func obj Queued = (True, False, False, 0, outcome func obj, [], 1, 1)"
| "expected func obj Yielded =
     (True, returned (func obj), raised (func obj), 0, [], outcome func obj, 1, 1)"
| "expected func obj UpQueued =
     (False, False, True, 0, [(obj, None, Some UpstreamError)], [], 0, 0)"
| "expected func obj UpYielded =
     (False, False, True, 0, [], [(obj, None, Some UpstreamError)], 0, 0)"

definition obj_ok ::
  "('a \<Rightarrow> ('r, 'x) call) \<Rightarrow> 'a list \<Rightarrow> ('a, 'r, 'x) sys \<Rightarrow> 'a \<Rightarrow> bool" where
  "obj_ok func objs s obj =
     (\<exists>ph. footprint s obj = expected func obj ph \<and> (ph = Pending \<or> obj \<in> set objs))"

text \<open>On the queue, no event stands behind a sentinel.\<close>

fun ordered_q :: "('a, 'r, 'x) item list \<Rightarrow> bool" where
  "ordered_q [] = True"
| "ordered_q (Event e # q) = ordered_q q"
| "ordered_q (STOP # q) = (q_events q = [])"

definition inv ::
  "('a \<Rightarrow> ('r, 'x) call) \<Rightarrow> 'a list \<Rightarrow> ('a, 'r, 'x) sys \<Rightarrow> bool" where
  "inv func objs s =
     (objects s = objs \<and> (\<forall>obj. obj_ok func objs s obj) \<and> ordered_q (results s)
      \<and> (STOP \<in> set (results s) \<longrightarrow> is_done s)
      \<and> (pc s = Done \<longrightarrow> is_done s \<and> q_events (results s) = []))"

subsection \<open>Dependencies, fair schedules and the work left\<close>

text \<open>
  The dependency relation restricted to the universe: \<open>(obj, d)\<close> when \<open>d\<close> is a
  dependency of \<open>obj\<close> and both are in the list of objects.
\<close>

definition dep_rel :: "('a \<Rightarrow> 'a list) \<Rightarrow> 'a list \<Rightarrow> ('a \<times> 'a) set" where
  "dep_rel get_deps objs = {(obj, d). obj \<in> set objs \<and> d \<in> set (get_deps obj) \<and> d \<in> set objs}"

text \<open>The objects on a cycle, and those that depend on one of them, directly or not.\<close>

definition cycle_reach :: "('a \<Rightarrow> 'a list) \<Rightarrow> 'a list \<Rightarrow> 'a set" where
  "cycle_reach get_deps objs =
     {p. \<exists>q. (p, q) \<in> (dep_rel get_deps objs)\<^sup>* \<and> (q, q) \<in> (dep_rel get_deps objs)\<^sup>+}"

text \<open>
  A schedule is fair when the wait in \<open>results.get\<close> is never interrupted, the generator
  does not stay for ever at one point of its loop (its consumer keeps asking for the
  next event), and every producer thread ends (every call of the work function ends,
  in one of the three ways).
\<close>

definition fair ::
  "('a \<Rightarrow> ('r, 'x) call) \<Rightarrow> ('a \<Rightarrow> 'a list) \<Rightarrow> 'a list \<Rightarrow> (nat \<Rightarrow> 'a action) \<Rightarrow> bool" where
  "fair func get_deps objs sched =
     ((\<forall>n. pc (exec func get_deps objs sched n) \<noteq> Shutdown)
      \<and> (\<forall>n. pc (exec func get_deps objs sched n) = AtFeed
               \<or> pc (exec func get_deps objs sched n) = AtGet
            \<longrightarrow> (\<exists>m>n. pc (exec func get_deps objs sched m) \<noteq> pc (exec func get_deps objs sched n)))
      \<and> (\<forall>n obj. obj \<in> set (threads (exec func get_deps objs sched n))
            \<longrightarrow> (\<exists>m>n. obj \<notin> set (threads (exec func get_deps objs sched m)))))"

text \<open>
  The work left in a state: three for an object not yet looked at with success, two for
  a running thread, one for an event waiting on the queue.
\<close>

definition work_left :: "('a, 'r, 'x) sys \<Rightarrow> nat" where
  "work_left s = 3 * card (pending s) + 2 * length (threads s) + length (q_events (results s))"

text \<open>The schedule that follows a list of actions and then only asks for events.\<close>

definition sched_of :: "'a action list \<Rightarrow> nat \<Rightarrow> 'a action" where
  "sched_of acts n = (if n < length acts then acts ! n else Get)"

subsection \<open>Example collaborators\<close>

text \<open>
  Work functions and dependency functions over objects numbered from 0, used to run the
  system on concrete inputs: a work function that always succeeds, one that fails on
  object 0 with an \<open>APIError\<close> explained as \<open>boom\<close>, a chain in which every object
  depends on its predecessor, and a cycle between 1 and 2 in which 1 also depends on 0.
\<close>

definition work_ok :: "nat \<Rightarrow> (nat, string) call" where
  "work_ok n = Returns (n + 10)"

definition work_boom :: "nat \<Rightarrow> (nat, string) call" where
  "work_boom n = (if n = 0 then Raises (APIError ''boom'') else Returns (n + 10))"

definition deps_chain :: "nat \<Rightarrow> nat list" where
  "deps_chain n = (if n = 0 then [] else [n - 1])"

definition deps_cycle :: "nat \<Rightarrow> nat list" where
  "deps_cycle n = (if n = 1 then [2, 0] else if n = 2 then [1] else [])"

text \<open>
  A schedule for the list \<open>[0, 0]\<close>, which names one object twice: the pass that starts
  object 0, the end of its thread, and then the generator asking for events for ever.
\<close>

definition dup_sched :: "nat \<Rightarrow> nat action" where
  "dup_sched n = (if n = 0 then Feed [0] else if n = 1 then Work 0 else if even n then Get else Feed [])"

text \<open>
  Names for the numbered objects, a work function that raises an exception of no known
  class on every object but 2, and a rendering of exceptions as texts.
\<close>

definition obj_name :: "nat \<Rightarrow> string" where
  "obj_name n = ''svc'' @ show_nat n"

definition work_crash :: "nat \<Rightarrow> (nat, string) call" where
  "work_crash n = (if n = 2 then Returns 12 else Raises (OtherError (''crash '' @ show_nat n)))"

fun str_exn :: "string exn \<Rightarrow> string" where
  "str_exn (APIError t) = t"
| "str_exn (OperationFailedError t) = t"
| "str_exn UpstreamError = []"
| "str_exn (OtherError t) = t"

text \<open>
  The truth value of an exception whose class defines \<open>__len__\<close> as the length of
  its message, and a naming function that gives every object the same name.
\<close>

definition truthy_len :: "string exn \<Rightarrow> bool" where
  "truthy_len e = (str_exn e \<noteq> [])"


section \<open>Properties\<close>

subsection \<open>The stream writer\<close>

lemma index_of_first_index:
  "x \<in> set xs \<Longrightarrow> index_of xs x = Inr (first_index xs x)"
  by (induction xs) (auto simp: first_index_def)

lemma index_of_missing:
  "x \<notin> set xs \<Longrightarrow> index_of xs x = Inl ValueError"
  by (induction xs) auto

lemma first_index_less:
  "x \<in> set xs \<Longrightarrow> first_index xs x < length xs"
  unfolding first_index_def
  by (induction xs) auto

text \<open>
  C7. For a name in the registry, with progress enabled, \<open>write\<close> (here \<open>writer_write\<close>) appends to the
  stream exactly: cursor up by \<open>diff\<close> lines, erase line and carriage return, the
  text \<open><message> <name> ... <status>\<close> and carriage return, cursor down by
  \<open>diff\<close> lines (and then flushes), where \<open>diff\<close> is the length of the registry
  minus the index of the first registration of the name, a positive number.
\<close>

theorem write_emits_cursor_sequence:
  assumes "msg w = Some m" and "obj_index \<in> set (lines w)"
  shows "\<exists>diff. diff = length (lines w) - first_index (lines w) obj_index
           \<and> 0 < diff
           \<and> writer_write w obj_index status =
               Inr (w\<lparr>stream := stream w @
                 [SWrite (CHR 0x1B # ''['' @ show_nat diff @ ''A''),
                  SWrite (CHR 0x1B # ''[2K'' @ [CHR 0x0D]),
                  SWrite (m @ '' '' @ obj_index @ '' ... '' @ status @ [CHR 0x0D]),
                  SWrite (CHR 0x1B # ''['' @ show_nat diff @ ''B''),
                  SFlush]\<rparr>)"
  using assms first_index_less [of obj_index "lines w"]
  by (simp add: writer_write_def index_of_first_index ESC_def CR_def Let_def)

theorem write_emits_cursor_sequence_witness:
  "writer_write (initialize (initialize (ParallelStreamWriter [] (Some ''Starting'')) ''web'') ''db'')
      ''db'' ''done''
   = Inr \<lparr>stream =
       [SWrite (''Starting web ... '' @ [CHR 0x0D, CHR 0x0A]), SFlush,
        SWrite (''Starting db ... '' @ [CHR 0x0D, CHR 0x0A]), SFlush,
        SWrite (CHR 0x1B # ''[1A''),
        SWrite (CHR 0x1B # ''[2K'' @ [CHR 0x0D]),
        SWrite (''Starting db ... done'' @ [CHR 0x0D]),
        SWrite (CHR 0x1B # ''[1B''),
        SFlush],
      msg = Some ''Starting'', lines = [''web'', ''db'']\<rparr>"
  using write_emits_cursor_sequence
    [of "initialize (initialize (ParallelStreamWriter [] (Some ''Starting'')) ''web'') ''db''"
        "''Starting''" "''db''" "''done''"]
  by (simp add: initialize_def ParallelStreamWriter_def first_index_def show_nat.simps
      digit_char_def CR_def LF_def)

subsection \<open>The invariant of the running system\<close>

lemma q_events_append: "q_events (q @ q') = q_events q @ q_events q'"
  by (induction q rule: q_events.induct) auto

lemma evs_of_append: "evs_of obj (xs @ ys) = evs_of obj xs @ evs_of obj ys"
  by (simp add: evs_of_def)

lemma evs_of_Nil: "evs_of obj [] = []"
  by (simp add: evs_of_def)

lemma evs_of_Cons: "evs_of obj (e # es) = (if ev_obj e = obj then e # evs_of obj es else evs_of obj es)"
  by (simp add: evs_of_def)

lemma evs_of_outcome:
  "evs_of a (outcome func obj) = (if a = obj then outcome func obj else [])"
  by (simp add: outcome_def evs_of_def split: call.splits)

lemma producer_outcome:
  "producer func obj s =
     s\<lparr>threads := remove1 obj (threads s), invoked := invoked s @ [obj],
       results := results s @ map Event (outcome func obj)\<rparr>"
  by (simp add: producer_def outcome_def Let_def split: call.splits)

lemma outcome_single:
  "x # xs = outcome func obj \<Longrightarrow> xs = [] \<and> outcome func obj = [x]"
  by (auto simp: outcome_def split: call.splits)

lemma outcome_length [simp]: "length (outcome func obj) \<le> Suc 0"
  by (simp add: outcome_def split: call.splits)

lemma raised_not_returned [simp]: "raised c \<Longrightarrow> returned c = False"
  by (cases c) simp_all

lemma outcome_flags:
  assumes "outcome func obj = [(a, r, e)]"
  shows "returned (func obj) = (e = None)" and "raised (func obj) = (e \<noteq> None)"
  using assms by (auto simp: outcome_def split: call.splits)

lemma outcome_Nil [simp]: "outcome func obj = [] \<longleftrightarrow> func obj = Escapes"
  by (simp add: outcome_def split: call.splits)

lemma q_events_map_Event: "q_events (map Event es) = es"
  by (induction es) simp_all

lemma footprint_pending:
  assumes "obj_ok func objs s obj" and "obj \<in> pending s"
  shows "footprint s obj = expected func obj Pending"
proof -
  from assms(1) obtain ph where ph: "footprint s obj = expected func obj ph"
    unfolding obj_ok_def by blast
  from assms(2) have "obj \<notin> started s" "obj \<notin> failed s"
    by (auto simp: pending_def)
  with ph show ?thesis
    by (cases ph) (auto simp: footprint_def)
qed

lemma footprint_feed_obj_other:
  "a \<noteq> obj \<Longrightarrow> footprint (feed_obj objs get_deps obj s) a = footprint s a"
  by (simp add: feed_obj_def footprint_def Let_def q_events_append evs_of_append evs_of_Cons evs_of_Nil)

lemma obj_ok_feed_obj:
  assumes "obj_ok func objs s a" and "obj \<in> pending s" and "objects s = objs"
    and "obj_ok func objs s obj"
  shows "obj_ok func objs (feed_obj objs get_deps obj s) a"
proof (cases "a = obj")
  case False
  then show ?thesis
    using assms(1) by (simp add: obj_ok_def footprint_feed_obj_other)
next
  case True
  have fp: "footprint s obj = expected func obj Pending"
    using footprint_pending [OF assms(4) assms(2)] .
  have mem: "obj \<in> set objs"
    using assms(2,3) by (auto simp: pending_def)
  have "footprint (feed_obj objs get_deps obj s) obj = expected func obj UpQueued
      \<or> footprint (feed_obj objs get_deps obj s) obj = expected func obj Running
      \<or> footprint (feed_obj objs get_deps obj s) obj = expected func obj Pending"
    using fp
    by (auto simp: feed_obj_def footprint_def Let_def q_events_append evs_of_append
        evs_of_Cons evs_of_Nil)
  then show ?thesis
    unfolding obj_ok_def True using mem by blast
qed

lemma footprint_producer_other:
  "a \<noteq> obj \<Longrightarrow> footprint (producer func obj s) a = footprint s a"
  by (simp add: producer_outcome footprint_def q_events_append evs_of_append q_events_map_Event
      evs_of_outcome count_list_remove1)

lemma footprint_running:
  assumes "obj_ok func objs s obj" and "obj \<in> set (threads s)"
  shows "footprint s obj = expected func obj Running \<and> obj \<in> set objs"
proof -
  from assms(1) obtain ph where ph: "footprint s obj = expected func obj ph"
    and mem: "ph = Pending \<or> obj \<in> set objs"
    unfolding obj_ok_def by blast
  from assms(2) have "count_list (threads s) obj \<noteq> 0"
    by (simp add: count_list_0_iff)
  with ph mem show ?thesis
    by (cases ph) (auto simp: footprint_def)
qed

lemma obj_ok_producer:
  assumes "obj_ok func objs s a" and "obj \<in> set (threads s)" and "obj_ok func objs s obj"
  shows "obj_ok func objs (producer func obj s) a"
proof (cases "a = obj")
  case False
  then show ?thesis
    using assms(1) by (simp add: obj_ok_def footprint_producer_other)
next
  case True
  have fp: "footprint s obj = expected func obj Running" and mem: "obj \<in> set objs"
    using footprint_running [OF assms(3) assms(2)] by simp_all
  have "footprint (producer func obj s) obj = expected func obj Queued"
    using fp
    by (auto simp: producer_outcome footprint_def q_events_append evs_of_append
        q_events_map_Event evs_of_outcome count_list_remove1)
  then show ?thesis
    unfolding obj_ok_def True using mem by blast
qed

lemma footprint_head:
  assumes "obj_ok func objs s obj" and "results s = Event (obj, r, e) # q"
  shows "(footprint s obj = expected func obj Queued \<and> outcome func obj = [(obj, r, e)]
          \<or> footprint s obj = expected func obj UpQueued \<and> r = None \<and> e = Some UpstreamError)
         \<and> obj \<in> set objs \<and> evs_of obj (q_events q) = []"
proof -
  from assms(1) obtain ph where ph: "footprint s obj = expected func obj ph"
    and mem: "ph = Pending \<or> obj \<in> set objs"
    unfolding obj_ok_def by blast
  have "evs_of obj (q_events (results s)) = (obj, r, e) # evs_of obj (q_events q)"
    by (simp add: assms(2) evs_of_Cons)
  with ph mem show ?thesis
    by (cases ph) (auto simp: footprint_def dest: outcome_single)
qed

lemma footprint_get_event_other:
  "results s = Event (obj, r, e) # q \<Longrightarrow> a \<noteq> obj \<Longrightarrow> footprint (get_event s) a = footprint s a"
  by (simp add: get_event_def footprint_def evs_of_append evs_of_Cons evs_of_Nil)

lemma obj_ok_get_event:
  assumes "\<And>b. obj_ok func objs s b"
  shows "obj_ok func objs (get_event s) a"
proof (cases "results s")
  case Nil
  then have "footprint (get_event s) a = footprint s a"
    by (simp add: get_event_def footprint_def)
  then show ?thesis using assms [of a] by (simp add: obj_ok_def)
next
  case (Cons x q)
  show ?thesis
  proof (cases x)
    case STOP
    with Cons have "footprint (get_event s) a = footprint s a"
      by (simp add: get_event_def footprint_def)
    then show ?thesis using assms [of a] by (simp add: obj_ok_def)
  next
    case (Event ev)
    obtain obj r e where ev: "ev = (obj, r, e)" by (cases ev) auto
    have res: "results s = Event (obj, r, e) # q"
      using Cons Event ev by simp
    show ?thesis
    proof (cases "a = obj")
      case False
      then show ?thesis
        using assms [of a] res by (simp add: obj_ok_def footprint_get_event_other)
    next
      case True
      note h = footprint_head [OF assms [of obj] res]
      from h have mem: "obj \<in> set objs" and rest: "evs_of obj (q_events q) = []"
        by simp_all
      from h have "footprint (get_event s) obj = expected func obj Yielded
          \<or> footprint (get_event s) obj = expected func obj UpYielded"
      proof (elim conjE disjE)
        assume fp: "footprint s obj = expected func obj Queued"
          and out: "outcome func obj = [(obj, r, e)]"
        have "footprint (get_event s) obj = expected func obj Yielded"
          using fp rest out res outcome_flags [OF out]
          by (auto simp: get_event_def footprint_def evs_of_append evs_of_Cons evs_of_Nil)
        then show ?thesis by simp
      next
        assume fp: "footprint s obj = expected func obj UpQueued"
          and "r = None" and "e = Some UpstreamError"
        then have "footprint (get_event s) obj = expected func obj UpYielded"
          using rest res
          by (auto simp: get_event_def footprint_def evs_of_append evs_of_Cons evs_of_Nil)
        then show ?thesis by simp
      qed
      then show ?thesis
        unfolding obj_ok_def True using mem by blast
    qed
  qed
qed

lemma ok_sets:
  assumes "\<And>b. obj_ok func objs s b"
  shows "finished s \<subseteq> set objs" and "failed s \<subseteq> set objs" and "started s \<subseteq> set objs"
    and "finished s \<inter> failed s = {}" and "finished s \<subseteq> started s"
    and "set (threads s) \<subseteq> started s - finished s - failed s"
proof -
  have each: "(a \<in> finished s \<longrightarrow> a \<in> set objs \<and> a \<notin> failed s \<and> a \<in> started s)
      \<and> (a \<in> failed s \<longrightarrow> a \<in> set objs) \<and> (a \<in> started s \<longrightarrow> a \<in> set objs)
      \<and> (a \<in> set (threads s) \<longrightarrow> a \<in> started s \<and> a \<notin> finished s \<and> a \<notin> failed s)" for a
  proof -
    from assms [of a] obtain ph where ph: "footprint s a = expected func a ph"
      and mem: "ph = Pending \<or> a \<in> set objs"
      unfolding obj_ok_def by blast
    have "a \<in> set (threads s) \<longleftrightarrow> count_list (threads s) a \<noteq> 0"
      by (simp add: count_list_0_iff)
    with ph mem show ?thesis
      by (cases ph) (auto simp: footprint_def)
  qed
  show "finished s \<subseteq> set objs" using each by blast
  show "failed s \<subseteq> set objs" using each by blast
  show "started s \<subseteq> set objs" using each by blast
  show "finished s \<inter> failed s = {}" using each by blast
  show "finished s \<subseteq> started s" using each by blast
  show "set (threads s) \<subseteq> started s - finished s - failed s" using each by blast
qed

lemma is_done_iff:
  assumes "\<And>b. obj_ok func objs s b" and "objects s = objs"
  shows "is_done s \<longleftrightarrow> distinct objs \<and> finished s \<union> failed s = set objs"
proof -
  note st = ok_sets [of func objs s, OF assms(1)]
  have fin: "finite (finished s)" "finite (failed s)"
    using st(1,2) finite_subset by blast+
  have cu: "card (finished s \<union> failed s) = card (finished s) + card (failed s)"
    using fin st(4) by (simp add: card_Un_disjoint)
  have sub: "finished s \<union> failed s \<subseteq> set objs"
    using st(1,2) by blast
  show ?thesis
  proof
    assume "is_done s"
    then have le: "length objs \<le> card (finished s \<union> failed s)"
      using cu assms(2) by (simp add: is_done_def)
    have le2: "card (finished s \<union> failed s) \<le> card (set objs)"
      using sub by (simp add: card_mono)
    have le3: "card (set objs) \<le> length objs"
      by (rule card_length)
    from le le2 le3 have "card (set objs) = length objs" by linarith
    then have d: "distinct objs" by (rule card_distinct)
    from le le2 le3 have "card (finished s \<union> failed s) = card (set objs)" by linarith
    with sub have "finished s \<union> failed s = set objs"
      by (simp add: card_subset_eq)
    with d show "distinct objs \<and> finished s \<union> failed s = set objs" by simp
  next
    assume "distinct objs \<and> finished s \<union> failed s = set objs"
    then show "is_done s"
      using cu assms(2) by (simp add: is_done_def distinct_card)
  qed
qed

lemma done_no_pending:
  assumes "\<And>b. obj_ok func objs s b" and "objects s = objs" and "is_done s"
  shows "pending s = {}" and "threads s = []"
proof -
  from is_done_iff [of func objs s] assms
  have eq: "finished s \<union> failed s = set objs" by blast
  then show "pending s = {}"
    using assms(2) by (auto simp: pending_def)
  have sup: "set objs \<subseteq> finished s \<union> failed s"
    using eq by simp
  have "set (threads s) \<subseteq> {}"
    using ok_sets(6) [of func objs s, OF assms(1)] ok_sets(3) [of func objs s, OF assms(1)] sup
    by blast
  then show "threads s = []" by simp
qed

lemma no_stop_ordered: "STOP \<notin> set q \<Longrightarrow> ordered_q q"
  by (induction q rule: ordered_q.induct) auto

lemma q_events_Nil_ordered: "q_events q = [] \<Longrightarrow> ordered_q q"
  by (induction q rule: ordered_q.induct) auto

lemma ordered_q_snoc_stop: "ordered_q q \<Longrightarrow> ordered_q (q @ [STOP])"
  by (induction q rule: ordered_q.induct) (auto simp: q_events_append)

lemma ordered_q_tl: "ordered_q (x # q) \<Longrightarrow> ordered_q q"
  by (cases x) (auto simp: q_events_Nil_ordered)

lemma invI:
  assumes "objects s = objs" and "\<And>a. obj_ok func objs s a" and "ordered_q (results s)"
    and "STOP \<in> set (results s) \<Longrightarrow> is_done s"
    and "pc s = Done \<Longrightarrow> is_done s \<and> q_events (results s) = []"
  shows "inv func objs s"
  using assms unfolding inv_def by blast

lemma inv_objects: "inv func objs s \<Longrightarrow> objects s = objs"
  by (simp add: inv_def)

lemma inv_ok: "inv func objs s \<Longrightarrow> obj_ok func objs s a"
  by (simp add: inv_def)

lemma inv_ordered: "inv func objs s \<Longrightarrow> ordered_q (results s)"
  by (simp add: inv_def)

lemma inv_stop: "inv func objs s \<Longrightarrow> STOP \<in> set (results s) \<Longrightarrow> is_done s"
  by (simp add: inv_def)

lemma inv_done: "inv func objs s \<Longrightarrow> pc s = Done \<Longrightarrow> is_done s \<and> q_events (results s) = []"
  by (simp add: inv_def)

lemma inv_init: "inv func objs (init objs)"
proof (rule invI)
  show "obj_ok func objs (init objs) a" for a
    unfolding obj_ok_def
    by (rule exI [of _ Pending]) (simp add: footprint_def init_def evs_of_Nil)
qed (simp_all add: init_def)

lemma inv_not_done_pending:
  assumes "inv func objs s" and "obj \<in> pending s"
  shows "\<not> is_done s" and "STOP \<notin> set (results s)" and "pc s \<noteq> Done"
proof -
  show nd: "\<not> is_done s"
    using done_no_pending(1) [of func objs s] inv_ok [OF assms(1)] inv_objects [OF assms(1)]
      assms(2) by blast
  show "STOP \<notin> set (results s)"
    using nd inv_stop [OF assms(1)] by blast
  show "pc s \<noteq> Done"
    using nd inv_done [OF assms(1)] by blast
qed

lemma feed_obj_fields:
  "objects (feed_obj objs get_deps obj s) = objects s"
  "pc (feed_obj objs get_deps obj s) = pc s"
  "finished (feed_obj objs get_deps obj s) = finished s"
  "yielded (feed_obj objs get_deps obj s) = yielded s"
  "invoked (feed_obj objs get_deps obj s) = invoked s"
  by (simp_all add: feed_obj_def Let_def)

lemma feed_obj_results:
  "results (feed_obj objs get_deps obj s) = results s
   \<or> results (feed_obj objs get_deps obj s) = results s @ [Event (obj, None, Some UpstreamError)]"
  by (simp add: feed_obj_def Let_def)

lemma inv_feed_obj:
  assumes "inv func objs s" and "obj \<in> pending s"
  shows "inv func objs (feed_obj objs get_deps obj s)"
proof (rule invI)
  note nd = inv_not_done_pending [OF assms]
  show "objects (feed_obj objs get_deps obj s) = objs"
    using inv_objects [OF assms(1)] by (simp add: feed_obj_fields)
  show "obj_ok func objs (feed_obj objs get_deps obj s) a" for a
    using obj_ok_feed_obj [OF inv_ok [OF assms(1)] assms(2) inv_objects [OF assms(1)]
        inv_ok [OF assms(1)]] .
  have ns: "STOP \<notin> set (results (feed_obj objs get_deps obj s))"
    using nd(2) feed_obj_results [of objs get_deps obj s] by auto
  then show "ordered_q (results (feed_obj objs get_deps obj s))"
    by (rule no_stop_ordered)
  show "is_done (feed_obj objs get_deps obj s)"
    if "STOP \<in> set (results (feed_obj objs get_deps obj s))"
    using that ns by blast
  show "is_done (feed_obj objs get_deps obj s)
      \<and> q_events (results (feed_obj objs get_deps obj s)) = []"
    if "pc (feed_obj objs get_deps obj s) = Done"
    using that nd(3) by (simp add: feed_obj_fields)
qed

lemma pending_feed_obj:
  "pending (feed_obj objs get_deps obj s) = pending s
   \<or> pending (feed_obj objs get_deps obj s) = pending s - {obj}"
  by (auto simp: feed_obj_def Let_def pending_def)

lemma inv_feed_loop:
  assumes "inv func objs s" and "set order \<subseteq> pending s" and "distinct order"
  shows "inv func objs (feed_loop objs get_deps order s)"
  using assms
proof (induction order arbitrary: s)
  case Nil
  then show ?case by simp
next
  case (Cons obj rest)
  have i: "inv func objs (feed_obj objs get_deps obj s)"
    using inv_feed_obj [OF Cons.prems(1)] Cons.prems(2) by simp
  have "set rest \<subseteq> pending s - {obj}"
    using Cons.prems(2,3) by auto
  then have "set rest \<subseteq> pending (feed_obj objs get_deps obj s)"
    using pending_feed_obj [of objs get_deps obj s] by auto
  then show ?case
    using Cons.IH [OF i] Cons.prems(3) by simp
qed

lemma footprint_results_stop:
  "footprint (s\<lparr>results := results s @ [STOP]\<rparr>) a = footprint s a"
  by (simp add: footprint_def q_events_append)

lemma footprint_pc:
  "footprint (s\<lparr>pc := p\<rparr>) a = footprint s a"
  by (simp add: footprint_def)

lemma inv_feed_queue:
  assumes "inv func objs s" and "set order \<subseteq> pending s" and "distinct order"
  shows "inv func objs (feed_queue objs get_deps order s)"
proof -
  let ?s = "feed_loop objs get_deps order s"
  have i: "inv func objs ?s"
    using inv_feed_loop [OF assms] .
  show ?thesis
  proof (cases "is_done ?s")
    case False
    then show ?thesis using i by (simp add: feed_queue_def Let_def)
  next
    case True
    have "inv func objs (?s\<lparr>results := results ?s @ [STOP]\<rparr>)"
    proof (rule invI)
      show "obj_ok func objs (?s\<lparr>results := results ?s @ [STOP]\<rparr>) a" for a
        using inv_ok [OF i, of a] by (simp add: obj_ok_def footprint_results_stop)
      show "is_done (?s\<lparr>results := results ?s @ [STOP]\<rparr>)"
        if "STOP \<in> set (results (?s\<lparr>results := results ?s @ [STOP]\<rparr>))"
        using True by (simp add: is_done_def)
      show "is_done (?s\<lparr>results := results ?s @ [STOP]\<rparr>)
          \<and> q_events (results (?s\<lparr>results := results ?s @ [STOP]\<rparr>)) = []"
        if "pc (?s\<lparr>results := results ?s @ [STOP]\<rparr>) = Done"
        using that True inv_done [OF i] by (simp add: is_done_def q_events_append)
    qed (simp_all add: inv_objects [OF i] ordered_q_snoc_stop [OF inv_ordered [OF i]])
    then show ?thesis using True by (simp add: feed_queue_def Let_def)
  qed
qed

lemma inv_pc:
  assumes "inv func objs s" and "p \<noteq> Done"
  shows "inv func objs (s\<lparr>pc := p\<rparr>)"
proof (rule invI)
  show "obj_ok func objs (s\<lparr>pc := p\<rparr>) a" for a
    using inv_ok [OF assms(1), of a] by (simp add: obj_ok_def footprint_pc)
  show "is_done (s\<lparr>pc := p\<rparr>)" if "STOP \<in> set (results (s\<lparr>pc := p\<rparr>))"
    using that inv_stop [OF assms(1)] by (simp add: is_done_def)
qed (simp_all add: inv_objects [OF assms(1)] inv_ordered [OF assms(1)] assms(2))

lemma inv_producer:
  assumes "inv func objs s" and "obj \<in> set (threads s)"
  shows "inv func objs (producer func obj s)"
proof (rule invI)
  have nd: "\<not> is_done s"
    using done_no_pending(2) [of func objs s] inv_ok [OF assms(1)] inv_objects [OF assms(1)]
      assms(2) by fastforce
  have ns: "STOP \<notin> set (results s)"
    using nd inv_stop [OF assms(1)] by blast
  have np: "pc s \<noteq> Done"
    using nd inv_done [OF assms(1)] by blast
  show "objects (producer func obj s) = objs"
    using inv_objects [OF assms(1)] by (simp add: producer_outcome)
  show "obj_ok func objs (producer func obj s) a" for a
    using obj_ok_producer [OF inv_ok [OF assms(1)] assms(2) inv_ok [OF assms(1)]] .
  have ns': "STOP \<notin> set (results (producer func obj s))"
    using ns by (auto simp: producer_outcome)
  then show "ordered_q (results (producer func obj s))"
    by (rule no_stop_ordered)
  show "is_done (producer func obj s)" if "STOP \<in> set (results (producer func obj s))"
    using that ns' by blast
  show "is_done (producer func obj s) \<and> q_events (results (producer func obj s)) = []"
    if "pc (producer func obj s) = Done"
    using that np by (simp add: producer_outcome)
qed

lemma get_event_Nil:
  "results s = [] \<Longrightarrow> get_event s = s\<lparr>pc := AtFeed\<rparr>"
  by (simp add: get_event_def)

lemma get_event_STOP:
  "results s = STOP # q \<Longrightarrow> get_event s = s\<lparr>results := q, pc := Done\<rparr>"
  by (simp add: get_event_def)

lemma get_event_Event_fields:
  assumes "results s = Event (obj, r, e) # q"
  shows "results (get_event s) = q" and "pc (get_event s) = AtFeed"
    and "objects (get_event s) = objects s"
    and "yielded (get_event s) = yielded s @ [(obj, r, e)]"
    and "threads (get_event s) = threads s"
    and "started (get_event s) = started s"
    and "finished (get_event s) \<union> failed (get_event s) = insert obj (finished s \<union> failed s)"
    and "launched (get_event s) = launched s" and "invoked (get_event s) = invoked s"
  using assms by (simp_all add: get_event_def)

lemma inv_get_event:
  assumes "inv func objs s"
  shows "inv func objs (get_event s)"
proof (cases "results s")
  case Nil
  then show ?thesis
    using inv_pc [OF assms, of AtFeed] by (simp add: get_event_Nil)
next
  case (Cons x q)
  show ?thesis
  proof (cases x)
    case STOP
    with Cons have res: "results s = STOP # q" by simp
    have d: "is_done s"
      using inv_stop [OF assms] res by simp
    have qe: "q_events q = []"
      using inv_ordered [OF assms] res by simp
    have "inv func objs (s\<lparr>results := q, pc := Done\<rparr>)"
    proof (rule invI)
      show "obj_ok func objs (s\<lparr>results := q, pc := Done\<rparr>) a" for a
        using inv_ok [OF assms, of a] res by (simp add: obj_ok_def footprint_def)
      show "ordered_q (results (s\<lparr>results := q, pc := Done\<rparr>))"
        using qe by (simp add: q_events_Nil_ordered)
      show "is_done (s\<lparr>results := q, pc := Done\<rparr>)"
        if "STOP \<in> set (results (s\<lparr>results := q, pc := Done\<rparr>))"
        using d by (simp add: is_done_def)
      show "is_done (s\<lparr>results := q, pc := Done\<rparr>)
          \<and> q_events (results (s\<lparr>results := q, pc := Done\<rparr>)) = []"
        if "pc (s\<lparr>results := q, pc := Done\<rparr>) = Done"
        using d qe by (simp add: is_done_def)
    qed (simp add: inv_objects [OF assms])
    then show ?thesis by (simp add: get_event_STOP [OF res])
  next
    case (Event ev)
    obtain obj r e where ev: "ev = (obj, r, e)" by (cases ev) auto
    have res: "results s = Event (obj, r, e) # q"
      using Cons Event ev by simp
    note f = get_event_Event_fields [OF res]
    have ok': "obj_ok func objs (get_event s) a" for a
      using obj_ok_get_event [of func objs s a] inv_ok [OF assms] by blast
    have mem: "obj \<in> set objs"
      using footprint_head [OF inv_ok [OF assms] res] by simp
    show ?thesis
    proof (rule invI)
      show "objects (get_event s) = objs"
        using inv_objects [OF assms] by (simp add: f)
      show "obj_ok func objs (get_event s) a" for a by (rule ok')
      show "ordered_q (results (get_event s))"
        using ordered_q_tl [of "Event (obj, r, e)" q] inv_ordered [OF assms] res
        by (simp add: f)
      show "is_done (get_event s)" if "STOP \<in> set (results (get_event s))"
      proof -
        from that have "STOP \<in> set (results s)" by (simp add: f res)
        then have "is_done s" by (rule inv_stop [OF assms])
        then have "distinct objs \<and> finished s \<union> failed s = set objs"
          using is_done_iff [of func objs s] inv_ok [OF assms] inv_objects [OF assms] by blast
        then have "distinct objs \<and> finished (get_event s) \<union> failed (get_event s) = set objs"
          using mem by (auto simp: f)
        then show ?thesis
          using is_done_iff [of func objs "get_event s"] ok' inv_objects [OF assms]
          by (simp add: f)
      qed
      show "is_done (get_event s) \<and> q_events (results (get_event s)) = []"
        if "pc (get_event s) = Done"
        using that by (simp add: f)
    qed
  qed
qed

lemma inv_step:
  assumes "inv func objs s" and "step func get_deps a s = Some s'"
  shows "inv func objs s'"
proof (cases a)
  case (Feed order)
  with assms(2) have c: "distinct order" "set order = pending s"
    and s': "s' = (feed_queue (objects s) get_deps order s)\<lparr>pc := AtGet\<rparr>"
    by (auto split: if_splits)
  have "inv func objs (feed_queue objs get_deps order s)"
    using inv_feed_queue [OF assms(1)] c by simp
  then show ?thesis
    using inv_pc [of func objs _ AtGet] s' inv_objects [OF assms(1)] by simp
next
  case Get
  with assms(2) have "s' = get_event s" by (auto split: if_splits)
  then show ?thesis using inv_get_event [OF assms(1)] by simp
next
  case (Work obj)
  with assms(2) have "obj \<in> set (threads s)" "s' = producer func obj s"
    by (auto split: if_splits)
  then show ?thesis using inv_producer [OF assms(1)] by simp
next
  case Interrupt
  with assms(2) have "s' = s\<lparr>pc := Shutdown\<rparr>" by (auto split: if_splits)
  then show ?thesis using inv_pc [OF assms(1), of Shutdown] by simp
qed

lemma reachable_inv: "reachable func get_deps objs s \<Longrightarrow> inv func objs s"
  by (induction rule: reachable.induct) (auto intro: inv_init inv_step)

lemma exec_reachable: "reachable func get_deps objs (exec func get_deps objs sched n)"
proof (induction n)
  case 0
  show ?case by (simp add: reach_init)
next
  case (Suc n)
  show ?case
  proof (cases "step func get_deps (sched n) (exec func get_deps objs sched n)")
    case None
    then show ?thesis using Suc by (simp add: Let_def)
  next
    case (Some s')
    then show ?thesis using reach_step [OF Suc Some] by (simp add: Let_def)
  qed
qed

lemma run_reachable:
  "reachable func get_deps objs s \<Longrightarrow> reachable func get_deps objs (run func get_deps acts s)"
proof (induction acts arbitrary: s)
  case Nil
  then show ?case by simp
next
  case (Cons a acts)
  show ?case
  proof (cases "step func get_deps a s")
    case None
    then show ?thesis using Cons by simp
  next
    case (Some s')
    then show ?thesis using Cons.IH [OF reach_step [OF Cons.prems Some]] by simp
  qed
qed

subsection \<open>Effects of one admission pass\<close>

lemma feed_loop_append:
  "feed_loop objs get_deps (xs @ ys) s = feed_loop objs get_deps ys (feed_loop objs get_deps xs s)"
  by (induction xs arbitrary: s) auto

lemma feed_loop_fields:
  "objects (feed_loop objs get_deps order s) = objects s"
  "pc (feed_loop objs get_deps order s) = pc s"
  "finished (feed_loop objs get_deps order s) = finished s"
  "yielded (feed_loop objs get_deps order s) = yielded s"
  "invoked (feed_loop objs get_deps order s) = invoked s"
  by (induction order arbitrary: s) (simp_all add: feed_obj_fields)

lemma feed_obj_mono:
  "started s \<subseteq> started (feed_obj objs get_deps obj s)"
  "failed s \<subseteq> failed (feed_obj objs get_deps obj s)"
  by (auto simp: feed_obj_def Let_def)

lemma feed_loop_mono:
  "started s \<subseteq> started (feed_loop objs get_deps order s)"
  "failed s \<subseteq> failed (feed_loop objs get_deps order s)"
proof (induction order arbitrary: s)
  case Nil
  { case 1 show ?case by simp }
  { case 2 show ?case by simp }
next
  case (Cons obj rest)
  { case 1 show ?case
      using Cons.IH(1) [of "feed_obj objs get_deps obj s"] feed_obj_mono(1) [of s objs get_deps obj]
      by auto }
  { case 2 show ?case
      using Cons.IH(2) [of "feed_obj objs get_deps obj s"] feed_obj_mono(2) [of s objs get_deps obj]
      by auto }
qed

lemma feed_loop_footprint_other:
  "a \<notin> set order \<Longrightarrow> footprint (feed_loop objs get_deps order s) a = footprint s a"
  by (induction order arbitrary: s) (auto simp: footprint_feed_obj_other)

lemma feed_queue_fields:
  "objects (feed_queue objs get_deps order s) = objects s"
  "pc (feed_queue objs get_deps order s) = pc s"
  "started (feed_queue objs get_deps order s) = started (feed_loop objs get_deps order s)"
  "finished (feed_queue objs get_deps order s) = finished s"
  "failed (feed_queue objs get_deps order s) = failed (feed_loop objs get_deps order s)"
  "threads (feed_queue objs get_deps order s) = threads (feed_loop objs get_deps order s)"
  "launched (feed_queue objs get_deps order s) = launched (feed_loop objs get_deps order s)"
  "yielded (feed_queue objs get_deps order s) = yielded s"
  "invoked (feed_queue objs get_deps order s) = invoked s"
  "q_events (results (feed_queue objs get_deps order s))
     = q_events (results (feed_loop objs get_deps order s))"
  by (simp_all add: feed_queue_def Let_def feed_loop_fields q_events_append)

lemma footprint_feed_queue:
  "footprint (feed_queue objs get_deps order s) a = footprint (feed_loop objs get_deps order s) a"
  by (simp add: footprint_def feed_queue_fields feed_loop_fields)

lemma pending_footprint:
  "a \<in> pending s \<longleftrightarrow>
     a \<in> set (objects s) \<and> \<not> fst (footprint s a) \<and> \<not> fst (snd (footprint s a))
       \<and> \<not> fst (snd (snd (footprint s a)))"
  by (auto simp: pending_def footprint_def)

lemma feed_loop_started:
  "a \<in> started (feed_loop objs get_deps order s) \<Longrightarrow>
     a \<in> started s
     \<or> (a \<in> set order \<and> list_all (\<lambda>dep. dep \<notin> set objs \<or> dep \<in> finished s) (get_deps a))"
proof (induction order arbitrary: s)
  case Nil
  then show ?case by simp
next
  case (Cons obj rest)
  from Cons.IH [of "feed_obj objs get_deps obj s"] Cons.prems
  have "a \<in> started (feed_obj objs get_deps obj s)
      \<or> (a \<in> set rest \<and> list_all (\<lambda>dep. dep \<notin> set objs \<or> dep \<in> finished s) (get_deps a))"
    by (simp add: feed_obj_fields)
  moreover have "a \<in> started (feed_obj objs get_deps obj s) \<Longrightarrow>
      a \<in> started s
      \<or> (a = obj \<and> list_all (\<lambda>dep. dep \<notin> set objs \<or> dep \<in> finished s) (get_deps a))"
    by (auto simp: feed_obj_def Let_def split: if_splits)
  ultimately show ?case by auto
qed

lemma feed_loop_threads:
  "set (threads (feed_loop objs get_deps order s)) \<subseteq> set (threads s) \<union> set order"
proof (induction order arbitrary: s)
  case Nil
  then show ?case by simp
next
  case (Cons obj rest)
  have "set (threads (feed_obj objs get_deps obj s)) \<subseteq> set (threads s) \<union> {obj}"
    by (auto simp: feed_obj_def Let_def)
  with Cons.IH [of "feed_obj objs get_deps obj s"] show ?case by auto
qed

lemma feed_obj_left_pending:
  assumes "\<not> list_ex (\<lambda>dep. dep \<in> failed s) (get_deps obj)"
    and "\<not> list_all (\<lambda>dep. dep \<notin> set objs \<or> dep \<in> finished s) (get_deps obj)"
  shows "feed_obj objs get_deps obj s = s"
  using assms by (simp add: feed_obj_def Let_def)

lemma feed_obj_upstream:
  assumes "list_ex (\<lambda>dep. dep \<in> failed s) (get_deps obj)"
  shows "feed_obj objs get_deps obj s =
    s\<lparr>results := results s @ [Event (obj, None, Some UpstreamError)],
      failed := insert obj (failed s)\<rparr>"
  using assms by (simp add: feed_obj_def Let_def)

lemma feed_obj_launch:
  assumes "\<not> list_ex (\<lambda>dep. dep \<in> failed s) (get_deps obj)"
    and "list_all (\<lambda>dep. dep \<notin> set objs \<or> dep \<in> finished s) (get_deps obj)"
  shows "feed_obj objs get_deps obj s =
    s\<lparr>threads := threads s @ [obj], launched := launched s @ [obj],
      started := insert obj (started s)\<rparr>"
  using assms by (simp add: feed_obj_def Let_def)

lemma count_le1_distinct:
  "(\<And>a. count_list xs a \<le> 1) \<Longrightarrow> distinct xs"
proof (induction xs)
  case Nil
  then show ?case by simp
next
  case (Cons x xs)
  have "count_list xs a \<le> 1" for a
    using Cons.prems [of a] by (simp split: if_splits)
  then have "distinct xs" by (rule Cons.IH)
  moreover have "x \<notin> set xs"
    using Cons.prems [of x] by (simp add: count_list_0_iff)
  ultimately show ?case by simp
qed

lemma evs_le1_distinct:
  "(\<And>a. length (evs_of a es) \<le> 1) \<Longrightarrow> distinct (map ev_obj es)"
proof (induction es)
  case Nil
  then show ?case by simp
next
  case (Cons e es)
  have "length (evs_of a es) \<le> 1" for a
    using Cons.prems [of a] by (simp add: evs_of_Cons split: if_splits)
  then have "distinct (map ev_obj es)" by (rule Cons.IH)
  moreover have "ev_obj e \<notin> ev_obj ` set es"
  proof
    assume "ev_obj e \<in> ev_obj ` set es"
    then obtain e' where "e' \<in> set es" "ev_obj e' = ev_obj e" by auto
    then have "e' \<in> set (evs_of (ev_obj e) es)" by (simp add: evs_of_def)
    then have "evs_of (ev_obj e) es \<noteq> []" by auto
    then show False
      using Cons.prems [of "ev_obj e"] by (simp add: evs_of_Cons)
  qed
  ultimately show ?case by simp
qed

lemma ok_histories:
  assumes "\<And>b. obj_ok func objs s b"
  shows "distinct (launched s)" and "set (launched s) = started s"
    and "distinct (map ev_obj (yielded s))" and "distinct (invoked s)"
    and "distinct (threads s)" and "distinct (map ev_obj (q_events (results s)))"
proof -
  have each: "count_list (launched s) a \<le> 1 \<and> (a \<in> started s \<longleftrightarrow> count_list (launched s) a \<noteq> 0)
      \<and> length (evs_of a (yielded s)) \<le> 1 \<and> count_list (invoked s) a \<le> 1
      \<and> count_list (threads s) a \<le> 1 \<and> length (evs_of a (q_events (results s))) \<le> 1" for a
  proof -
    from assms [of a] obtain ph where ph: "footprint s a = expected func a ph"
      unfolding obj_ok_def by blast
    then show ?thesis
      by (cases ph) (auto simp: footprint_def)
  qed
  show "distinct (launched s)" using each by (intro count_le1_distinct) simp
  show "set (launched s) = started s" using each by (auto simp: count_list_0_iff)
  show "distinct (map ev_obj (yielded s))" using each by (intro evs_le1_distinct) simp
  show "distinct (invoked s)" using each by (intro count_le1_distinct) simp
  show "distinct (threads s)" using each by (intro count_le1_distinct) simp
  show "distinct (map ev_obj (q_events (results s)))" using each by (intro evs_le1_distinct) simp
qed

subsection \<open>The sets of the scheduling state\<close>

lemma get_event_mono:
  "started s \<subseteq> started (get_event s)" "finished s \<subseteq> finished (get_event s)"
  "failed s \<subseteq> failed (get_event s)" "launched (get_event s) = launched s"
  "threads (get_event s) = threads s" "invoked (get_event s) = invoked s"
  by (auto simp: get_event_def split: list.splits item.splits)

lemma step_mono:
  assumes "step func get_deps a s = Some s'"
  shows "started s \<subseteq> started s'" and "finished s \<subseteq> finished s'" and "failed s \<subseteq> failed s'"
    and "objects s' = objects s"
proof -
  have "started s \<subseteq> started s' \<and> finished s \<subseteq> finished s' \<and> failed s \<subseteq> failed s'
      \<and> objects s' = objects s"
  proof (cases a)
    case (Feed order)
    with assms have "s' = (feed_queue (objects s) get_deps order s)\<lparr>pc := AtGet\<rparr>"
      by (auto split: if_splits)
    then show ?thesis
      using feed_loop_mono [of s "objects s" get_deps order]
      by (simp add: feed_queue_fields)
  next
    case Get
    with assms have "s' = get_event s" by (auto split: if_splits)
    then show ?thesis
      using get_event_mono [of s] by (auto simp: get_event_def split: list.splits item.splits)
  next
    case (Work obj)
    with assms have "s' = producer func obj s" by (auto split: if_splits)
    then show ?thesis by (simp add: producer_outcome)
  next
    case Interrupt
    with assms have "s' = s\<lparr>pc := Shutdown\<rparr>" by (auto split: if_splits)
    then show ?thesis by simp
  qed
  then show "started s \<subseteq> started s'" and "finished s \<subseteq> finished s'"
    and "failed s \<subseteq> failed s'" and "objects s' = objects s"
    by simp_all
qed

lemma feed_loop_launched_other:
  assumes "a \<notin> set order"
  shows "count_list (launched (feed_loop objs get_deps order s)) a = count_list (launched s) a"
  using feed_loop_footprint_other [OF assms, of objs get_deps s]
  by (simp add: footprint_def)

lemma step_launched_terminal:
  assumes "step func get_deps a s = Some s'" and "obj \<in> finished s \<union> failed s"
  shows "count_list (launched s') obj = count_list (launched s) obj"
proof (cases a)
  case (Feed order)
  with assms(1) have o: "set order = pending s"
    and s': "s' = (feed_queue (objects s) get_deps order s)\<lparr>pc := AtGet\<rparr>"
    by (auto split: if_splits)
  have "obj \<notin> set order"
    using o assms(2) by (auto simp: pending_def)
  then show ?thesis
    using s' by (simp add: feed_queue_fields feed_loop_launched_other)
next
  case Get
  with assms(1) have "s' = get_event s" by (auto split: if_splits)
  then show ?thesis by (simp add: get_event_mono)
next
  case (Work x)
  with assms(1) have "s' = producer func x s" by (auto split: if_splits)
  then show ?thesis by (simp add: producer_outcome)
next
  case Interrupt
  with assms(1) have "s' = s\<lparr>pc := Shutdown\<rparr>" by (auto split: if_splits)
  then show ?thesis by simp
qed

text \<open>
  C4, as amended. In every reachable state: a thread is started at most once for each
  object, and \<open>started\<close> is the set of the objects a thread was started for; no
  object is in both \<open>finished\<close> and \<open>failed\<close>, and at most one event is yielded
  for each object; \<open>pending()\<close> is the universe minus \<open>started\<close>, \<open>finished\<close>
  and \<open>failed\<close>; \<open>is_done()\<close> holds iff the sizes of \<open>finished\<close> and
  \<open>failed\<close> add up to at least the length of the list of objects. When the list names
  no object twice that length is the size of the universe, and \<open>is_done()\<close> holds
  iff every object of the universe is in \<open>finished\<close> or in \<open>failed\<close>. No step
  removes an object from one of the three sets, and after any step an object that was
  in \<open>finished\<close> or \<open>failed\<close> is not pending and has had no further thread
  started.
\<close>

theorem scheduling_state_invariant:
  assumes "reachable func get_deps objs s"
  shows "distinct (launched s) \<and> set (launched s) = started s
    \<and> finished s \<inter> failed s = {}
    \<and> distinct (map ev_obj (yielded s))
    \<and> pending s = set objs - started s - finished s - failed s
    \<and> (is_done s \<longleftrightarrow> length objs \<le> card (finished s) + card (failed s))
    \<and> (distinct objs \<longrightarrow>
          (is_done s \<longleftrightarrow> card (set objs) \<le> card (finished s) + card (failed s))
          \<and> (is_done s \<longleftrightarrow> finished s \<union> failed s = set objs))
    \<and> (\<forall>a s'. step func get_deps a s = Some s' \<longrightarrow>
          started s \<subseteq> started s' \<and> finished s \<subseteq> finished s' \<and> failed s \<subseteq> failed s'
          \<and> (\<forall>obj \<in> finished s \<union> failed s.
                obj \<notin> pending s' \<and> count_list (launched s') obj = count_list (launched s) obj))"
proof -
  have i: "inv func objs s"
    using assms by (rule reachable_inv)
  have ok: "obj_ok func objs s b" for b
    using i by (rule inv_ok)
  have obs: "objects s = objs"
    using i by (rule inv_objects)
  have post: "started s \<subseteq> started s' \<and> finished s \<subseteq> finished s' \<and> failed s \<subseteq> failed s'
      \<and> (\<forall>obj \<in> finished s \<union> failed s.
            obj \<notin> pending s' \<and> count_list (launched s') obj = count_list (launched s) obj)"
    if st: "step func get_deps a s = Some s'" for a s'
  proof -
    note m = step_mono [OF st]
    have "obj \<notin> pending s'" if "obj \<in> finished s \<union> failed s" for obj
      using that m(2,3) by (auto simp: pending_def)
    then show ?thesis
      using m(1,2,3) step_launched_terminal [OF st] by blast
  qed
  have dist: "(is_done s \<longleftrightarrow> card (set objs) \<le> card (finished s) + card (failed s))
      \<and> (is_done s \<longleftrightarrow> finished s \<union> failed s = set objs)"
    if d: "distinct objs"
  proof -
    have "is_done s \<longleftrightarrow> card (set objs) \<le> card (finished s) + card (failed s)"
      using obs distinct_card [OF d] by (simp add: is_done_def)
    moreover have "is_done s \<longleftrightarrow> finished s \<union> failed s = set objs"
      using is_done_iff [of func objs s, OF ok obs] d by simp
    ultimately show ?thesis by simp
  qed
  have "distinct (launched s) \<and> set (launched s) = started s
    \<and> finished s \<inter> failed s = {}
    \<and> distinct (map ev_obj (yielded s))
    \<and> pending s = set objs - started s - finished s - failed s
    \<and> (is_done s \<longleftrightarrow> length objs \<le> card (finished s) + card (failed s))"
    using ok_histories(1,2,3) [of func objs s, OF ok] ok_sets(4) [of func objs s, OF ok] obs
    by (simp add: pending_def is_done_def)
  with dist post show ?thesis
    by blast
qed

theorem scheduling_state_invariant_witness:
  "distinct (launched (run work_ok deps_chain [Feed [0, 1], Work 0, Get] (init [0, 1])))
   \<and> \<not> is_done (run work_ok deps_chain [Feed [0, 1], Work 0, Get] (init [0, 1]))
   \<and> finished (run work_ok deps_chain [Feed [0, 1], Work 0, Get] (init [0, 1])) = {0}
   \<and> finished (run work_ok deps_chain [Feed [0, 1], Work 0, Get] (init [0, 1]))
       \<inter> failed (run work_ok deps_chain [Feed [0, 1], Work 0, Get] (init [0, 1])) = {}
   \<and> step work_ok deps_chain (Feed [1])
        (run work_ok deps_chain [Feed [0, 1], Work 0, Get] (init [0, 1]))
      = Some (run work_ok deps_chain [Feed [0, 1], Work 0, Get, Feed [1]] (init [0, 1]))
   \<and> 0 \<notin> pending (run work_ok deps_chain [Feed [0, 1], Work 0, Get, Feed [1]] (init [0, 1]))
   \<and> count_list (launched (run work_ok deps_chain [Feed [0, 1], Work 0, Get, Feed [1]] (init [0, 1]))) 0
      = count_list (launched (run work_ok deps_chain [Feed [0, 1], Work 0, Get] (init [0, 1]))) 0"
proof -
  let ?s = "run work_ok deps_chain [Feed [0, 1], Work 0, Get] (init [0, 1 :: nat])
    :: (nat, nat, string) sys"
  let ?s' = "run work_ok deps_chain [Feed [0, 1], Work 0, Get, Feed [1]] (init [0, 1 :: nat])
    :: (nat, nat, string) sys"
  have r: "reachable work_ok deps_chain [0, 1] ?s"
    by (rule run_reachable [OF reach_init])
  have f: "finished ?s = {0}"
    by code_simp
  have fl: "failed ?s = {}"
    by code_simp
  have st: "step work_ok deps_chain (Feed [1]) ?s = Some ?s'"
    by code_simp
  have d: "distinct [0, 1 :: nat]" by simp
  from scheduling_state_invariant [OF r] d
  have "is_done ?s \<longleftrightarrow> finished ?s \<union> failed ?s = set [0, 1]"
    by blast
  then have nd: "\<not> is_done ?s"
    unfolding f fl by auto
  from scheduling_state_invariant [OF r] f st nd show ?thesis
    by (simp del: run.simps step.simps)
qed

theorem duplicate_universe_size_counterexample:
  "reachable work_ok no_deps [0, 0] (run work_ok no_deps [Feed [0], Work 0, Get] (init [0, 0]))
   \<and> finished (run work_ok no_deps [Feed [0], Work 0, Get] (init [0, 0])) = {0}
   \<and> failed (run work_ok no_deps [Feed [0], Work 0, Get] (init [0, 0])) = {}
   \<and> card (set [0, 0 :: nat])
       \<le> card (finished (run work_ok no_deps [Feed [0], Work 0, Get] (init [0, 0])))
         + card (failed (run work_ok no_deps [Feed [0], Work 0, Get] (init [0, 0])))
   \<and> \<not> is_done (run work_ok no_deps [Feed [0], Work 0, Get] (init [0, 0]))"
proof -
  define s :: "(nat, nat, string) sys"
    where "s = run work_ok no_deps [Feed [0], Work 0, Get] (init [0, 0])"
  have r: "reachable work_ok no_deps [0, 0] s"
    unfolding s_def by (rule run_reachable [OF reach_init])
  have f: "finished s = {0}" and fl: "failed s = {}"
    unfolding s_def by code_simp+
  have nd: "\<not> is_done s"
    unfolding s_def by code_simp
  have c: "card (set [0, 0 :: nat]) \<le> card (finished s) + card (failed s)"
    unfolding f fl by simp
  from r f fl c nd show ?thesis
    unfolding s_def by blast
qed

subsection \<open>Admission is gated by the dependencies\<close>

lemma list_ex_failed_mono:
  assumes "list_ex (\<lambda>dep. dep \<in> failed s) deps" and "failed s \<subseteq> failed s1"
  shows "list_ex (\<lambda>dep. dep \<in> failed s1) deps"
  using assms by (auto simp: list_ex_iff)

lemma feed_loop_at:
  "feed_loop objs get_deps (xs @ obj # ys) s =
     feed_loop objs get_deps ys (feed_obj objs get_deps obj (feed_loop objs get_deps xs s))"
  by (simp add: feed_loop_append)

lemma footprint_feed_loop_at:
  assumes "distinct (xs @ obj # ys)"
  shows "footprint (feed_loop objs get_deps (xs @ obj # ys) s) obj
    = footprint (feed_obj objs get_deps obj (feed_loop objs get_deps xs s)) obj"
  using assms by (simp add: feed_loop_at feed_loop_footprint_other)

lemma footprint_before:
  assumes "distinct (xs @ obj # ys)"
  shows "footprint (feed_loop objs get_deps xs s) obj = footprint s obj"
  using assms by (simp add: feed_loop_footprint_other)


lemma footprint_finished:
  assumes "obj_ok func objs s d" and "d \<in> finished s"
  shows "d \<notin> failed s" and "d \<notin> set (threads s)"
    and "evs_of d (q_events (results s)) = []" and "d \<in> started s"
proof -
  from assms(1) obtain ph where ph: "footprint s d = expected func d ph"
    unfolding obj_ok_def by blast
  have "d \<notin> failed s \<and> count_list (threads s) d = 0
      \<and> evs_of d (q_events (results s)) = [] \<and> d \<in> started s"
    using ph assms(2) by (cases ph) (auto simp: footprint_def)
  then show "d \<notin> failed s" and "d \<notin> set (threads s)"
    and "evs_of d (q_events (results s)) = []" and "d \<in> started s"
    by (simp_all add: count_list_0_iff)
qed

lemma footprint_new_thread:
  assumes "obj_ok func objs s obj" and "obj \<in> started s" and "obj \<notin> set (invoked s)"
  shows "obj \<in> set (threads s)"
proof -
  from assms(1) obtain ph where ph: "footprint s obj = expected func obj ph"
    unfolding obj_ok_def by blast
  have "count_list (invoked s) obj = 0"
    using assms(3) by (simp add: count_list_0_iff)
  then have "count_list (threads s) obj \<noteq> 0"
    using ph assms(2) by (cases ph) (auto simp: footprint_def)
  then show ?thesis by (simp add: count_list_0_iff)
qed

lemma pending_not_invoked:
  assumes "obj_ok func objs s obj" and "obj \<in> pending s"
  shows "obj \<notin> set (invoked s)" and "obj \<notin> set (threads s)"
    and "evs_of obj (q_events (results s)) = []"
proof -
  have "footprint s obj = expected func obj Pending"
    using footprint_pending [OF assms] .
  then have "count_list (invoked s) obj = 0 \<and> count_list (threads s) obj = 0
      \<and> evs_of obj (q_events (results s)) = []"
    by (simp add: footprint_def)
  then show "obj \<notin> set (invoked s)" and "obj \<notin> set (threads s)"
    and "evs_of obj (q_events (results s)) = []"
    by (simp_all add: count_list_0_iff)
qed

text \<open>
  C1. One admission pass over the pending objects, from a reachable state. An object
  the pass starts (it is added to \<open>started\<close> and its thread runs) was pending, and each of
  its dependencies is outside the universe or in \<open>finished\<close>: such a dependency is
  then not pending, not in \<open>failed\<close>, has no running thread and no event waiting on the
  queue. An object that, when the loop reaches it, has a dependency in the universe that
  is not in \<open>finished\<close> and no dependency in \<open>failed\<close> is left as it was: still
  pending after the pass, with no thread, so a later pass looks at it again.
\<close>

theorem admission_gated_by_dependencies:
  assumes "reachable func get_deps objs s"
    and "distinct order" and "set order = pending s"
    and "s' = feed_queue objs get_deps order s"
  shows "(\<forall>obj. obj \<in> started s' - started s \<longrightarrow>
            obj \<in> pending s \<and> obj \<in> set (threads s')
            \<and> (\<forall>d \<in> set (get_deps obj). d \<notin> set objs
                  \<or> (d \<in> finished s \<and> d \<notin> pending s \<and> d \<notin> failed s'
                      \<and> d \<notin> set (threads s') \<and> evs_of d (q_events (results s')) = [])))
    \<and> (\<forall>xs obj ys. order = xs @ obj # ys
            \<and> (\<exists>d \<in> set (get_deps obj). d \<in> set objs \<and> d \<notin> finished s)
            \<and> (\<forall>d \<in> set (get_deps obj). d \<notin> failed (feed_loop objs get_deps xs s))
          \<longrightarrow> obj \<in> pending s' \<and> obj \<notin> started s' \<and> obj \<notin> set (threads s'))"
proof -
  have i: "inv func objs s"
    using assms(1) by (rule reachable_inv)
  have i': "inv func objs s'"
    using inv_feed_queue [OF i] assms(2,3,4) by simp
  have fin: "finished s' = finished s" and inv_same: "invoked s' = invoked s"
    and obs: "objects s' = objs"
    using assms(4) inv_objects [OF i] by (simp_all add: feed_queue_fields)
  have dep_ok: "d \<notin> set objs
        \<or> (d \<in> finished s \<and> d \<notin> pending s \<and> d \<notin> failed s'
            \<and> d \<notin> set (threads s') \<and> evs_of d (q_events (results s')) = [])"
    if c: "d \<notin> set objs \<or> d \<in> finished s" for d
  proof (cases "d \<in> finished s")
    case True
    then have "d \<in> finished s'" using fin by simp
    from footprint_finished [OF inv_ok [OF i'] this] True
    show ?thesis by (simp add: pending_def)
  next
    case False
    with c show ?thesis by simp
  qed
  have A: "obj \<in> pending s \<and> obj \<in> set (threads s')
            \<and> (\<forall>d \<in> set (get_deps obj). d \<notin> set objs
                  \<or> (d \<in> finished s \<and> d \<notin> pending s \<and> d \<notin> failed s'
                      \<and> d \<notin> set (threads s') \<and> evs_of d (q_events (results s')) = []))"
    if new: "obj \<in> started s' - started s" for obj
  proof -
    from new have "obj \<in> started (feed_loop objs get_deps order s)" and ns: "obj \<notin> started s"
      using assms(4) by (simp_all add: feed_queue_fields)
    from feed_loop_started [OF this(1)] ns
    have mem: "obj \<in> set order"
      and all: "list_all (\<lambda>dep. dep \<notin> set objs \<or> dep \<in> finished s) (get_deps obj)"
      by blast+
    have p: "obj \<in> pending s"
      using mem assms(3) by simp
    have "obj \<notin> set (invoked s')"
      using pending_not_invoked(1) [OF inv_ok [OF i] p] inv_same by simp
    then have t: "obj \<in> set (threads s')"
      using footprint_new_thread [OF inv_ok [OF i']] new by blast
    have "\<forall>d \<in> set (get_deps obj). d \<notin> set objs \<or> d \<in> finished s"
      using all by (simp add: list_all_iff)
    then show ?thesis
      using p t dep_ok by blast
  qed
  have B: "obj \<in> pending s' \<and> obj \<notin> started s' \<and> obj \<notin> set (threads s')"
    if h: "order = xs @ obj # ys
        \<and> (\<exists>d \<in> set (get_deps obj). d \<in> set objs \<and> d \<notin> finished s)
        \<and> (\<forall>d \<in> set (get_deps obj). d \<notin> failed (feed_loop objs get_deps xs s))"
    for xs obj ys
  proof -
    let ?s1 = "feed_loop objs get_deps xs s"
    have d: "distinct (xs @ obj # ys)"
      using h assms(2) by simp
    have p: "obj \<in> pending s"
      using h assms(3) by auto
    have "\<not> list_ex (\<lambda>dep. dep \<in> failed ?s1) (get_deps obj)"
      using h by (simp add: list_ex_iff)
    moreover have "\<not> list_all (\<lambda>dep. dep \<notin> set objs \<or> dep \<in> finished ?s1) (get_deps obj)"
      using h by (auto simp: list_all_iff feed_loop_fields)
    ultimately have "feed_obj objs get_deps obj ?s1 = ?s1"
      by (rule feed_obj_left_pending)
    then have "footprint s' obj = footprint s obj"
      using footprint_feed_loop_at [OF d, of objs get_deps s]
        footprint_before [OF d, of objs get_deps s] h assms(4)
      by (simp add: footprint_feed_queue)
    then have same: "footprint s' obj = expected func obj Pending"
      using footprint_pending [OF inv_ok [OF i] p] by simp
    have "obj \<in> set objs"
      using p inv_objects [OF i] by (simp add: pending_def)
    then have "obj \<in> pending s'"
      using same obs by (simp add: pending_footprint)
    moreover have "obj \<notin> started s'"
      using same by (simp add: footprint_def)
    moreover have "count_list (threads s') obj = 0"
      using same by (simp add: footprint_def)
    ultimately show ?thesis
      by (simp add: count_list_0_iff)
  qed
  show ?thesis
    using A B by blast
qed


theorem admission_gated_by_dependencies_witness:
  "1 \<in> set (threads (feed_queue [0, 1, 2] deps_chain [2, 1]
        (run work_ok deps_chain [Feed [0, 1, 2], Work 0, Get] (init [0, 1, 2]))))
   \<and> 0 \<in> finished (run work_ok deps_chain [Feed [0, 1, 2], Work 0, Get] (init [0, 1, 2]))
   \<and> 0 \<notin> failed (feed_queue [0, 1, 2] deps_chain [2, 1]
        (run work_ok deps_chain [Feed [0, 1, 2], Work 0, Get] (init [0, 1, 2])))
   \<and> 2 \<in> pending (feed_queue [0, 1, 2] deps_chain [2, 1]
        (run work_ok deps_chain [Feed [0, 1, 2], Work 0, Get] (init [0, 1, 2])))
   \<and> 2 \<notin> started (feed_queue [0, 1, 2] deps_chain [2, 1]
        (run work_ok deps_chain [Feed [0, 1, 2], Work 0, Get] (init [0, 1, 2])))"
proof -
  define s :: "(nat, nat, string) sys"
    where "s = run work_ok deps_chain [Feed [0, 1, 2], Work 0, Get] (init [0, 1, 2])"
  define s' where "s' = feed_queue [0, 1, 2] deps_chain [2, 1] s"
  have r: "reachable work_ok deps_chain [0, 1, 2] s"
    unfolding s_def by (rule run_reachable [OF reach_init])
  have o: "distinct [2, 1 :: nat]" "set [2, 1] = pending s"
    unfolding s_def by code_simp+
  note T = admission_gated_by_dependencies [OF r o s'_def]
  have a: "1 \<in> started s' - started s"
    unfolding s_def s'_def by code_simp
  have dps: "deps_chain 1 = [0]" "deps_chain 2 = [1]"
    by (simp_all add: deps_chain_def)
  have b: "1 \<notin> finished s"
    unfolding s_def by code_simp
  have c: "1 \<notin> failed (feed_loop [0, 1, 2] deps_chain [] s)"
    unfolding s_def by code_simp
  from T a have t: "1 \<in> set (threads s')"
    and A: "\<forall>d \<in> set (deps_chain 1). d \<notin> set [0, 1, 2]
        \<or> (d \<in> finished s \<and> d \<notin> pending s \<and> d \<notin> failed s'
            \<and> d \<notin> set (threads s') \<and> evs_of d (q_events (results s')) = [])"
    by blast+
  from A dps have z: "0 \<in> finished s \<and> 0 \<notin> failed s'"
    by simp
  have "[2, 1 :: nat] = [] @ 2 # [1]
      \<and> (\<exists>d \<in> set (deps_chain 2). d \<in> set [0, 1, 2] \<and> d \<notin> finished s)
      \<and> (\<forall>d \<in> set (deps_chain 2). d \<notin> failed (feed_loop [0, 1, 2] deps_chain [] s))"
    using b c dps by simp
  with T have "2 \<in> pending s' \<and> 2 \<notin> started s'"
    by blast
  with t z show ?thesis
    unfolding s'_def s_def by blast
qed

subsection \<open>Upstream failures\<close>

lemma never_invoked_step:
  assumes "step func get_deps a s = Some s'"
    and "obj \<in> failed s" and "obj \<notin> set (threads s)" and "obj \<notin> set (invoked s)"
  shows "obj \<in> failed s' \<and> obj \<notin> set (threads s') \<and> obj \<notin> set (invoked s')"
proof (cases a)
  case (Feed order)
  with assms(1) have o: "set order = pending s"
    and s': "s' = (feed_queue (objects s) get_deps order s)\<lparr>pc := AtGet\<rparr>"
    by (auto split: if_splits)
  have "obj \<notin> set order"
    using o assms(2) by (simp add: pending_def)
  then have "obj \<notin> set (threads (feed_loop (objects s) get_deps order s))"
    using feed_loop_threads [of "objects s" get_deps order s] assms(3) by blast
  then show ?thesis
    using s' assms(2,4) feed_loop_mono(2) [of s "objects s" get_deps order]
    by (auto simp: feed_queue_fields)
next
  case Get
  with assms(1) have "s' = get_event s" by (auto split: if_splits)
  moreover have "failed s \<subseteq> failed (get_event s)"
    by (rule get_event_mono)
  ultimately show ?thesis
    using assms(2,3,4) by (auto simp: get_event_mono(5,6))
next
  case (Work x)
  with assms(1) have x: "x \<in> set (threads s)" and s': "s' = producer func x s"
    by (auto split: if_splits)
  have "x \<noteq> obj" using x assms(3) by blast
  then show ?thesis
    using s' assms(2,3,4) by (auto simp: producer_outcome dest: notin_set_remove1)
next
  case Interrupt
  with assms(1) have "s' = s\<lparr>pc := Shutdown\<rparr>" by (auto split: if_splits)
  then show ?thesis using assms(2,3,4) by simp
qed

lemma never_invoked_run:
  assumes "obj \<in> failed s" and "obj \<notin> set (threads s)" and "obj \<notin> set (invoked s)"
  shows "obj \<notin> set (invoked (run func get_deps acts s))"
  using assms
proof (induction acts arbitrary: s)
  case Nil
  then show ?case by simp
next
  case (Cons a acts)
  show ?case
  proof (cases "step func get_deps a s")
    case None
    then show ?thesis using Cons by simp
  next
    case (Some s')
    from never_invoked_step [OF Some Cons.prems]
    show ?thesis using Cons.IH [of s'] Some by simp
  qed
qed

lemma footprint_feed_obj_upstream:
  assumes "footprint s obj = expected func obj Pending"
    and "list_ex (\<lambda>dep. dep \<in> failed s) (get_deps obj)"
  shows "footprint (feed_obj objs get_deps obj s) obj = expected func obj UpQueued"
  using assms(1)
  unfolding feed_obj_upstream [where s = s and get_deps = get_deps and obj = obj and objs = objs,
      OF assms(2)]
  by (auto simp: footprint_def q_events_append evs_of_append evs_of_Cons evs_of_Nil)

text \<open>
  C2. A pending object with a dependency in \<open>failed\<close>, in an admission pass from a
  reachable state: after the pass the object is in \<open>failed\<close> and not in \<open>started\<close>;
  the queue, which held no event of the object before, holds exactly one after, the
  tuple \<open>(obj, None, UpstreamError())\<close>; and the work function has not been called on
  the object, nor is it in any state the system can reach from there.
\<close>

theorem upstream_failure_short_circuit:
  assumes "reachable func get_deps objs s"
    and "step func get_deps (Feed order) s = Some s'"
    and "obj \<in> pending s" and "\<exists>d \<in> set (get_deps obj). d \<in> failed s"
  shows "obj \<in> failed s' \<and> obj \<notin> started s'
    \<and> evs_of obj (q_events (results s)) = []
    \<and> evs_of obj (q_events (results s')) = [(obj, None, Some UpstreamError)]
    \<and> obj \<notin> set (invoked s')
    \<and> (\<forall>acts. obj \<notin> set (invoked (run func get_deps acts s')))"
proof -
  have i: "inv func objs s"
    using assms(1) by (rule reachable_inv)
  have obs: "objects s = objs"
    using i by (rule inv_objects)
  from assms(2) have d: "distinct order" and o: "set order = pending s"
    and s': "s' = (feed_queue objs get_deps order s)\<lparr>pc := AtGet\<rparr>"
    using obs by (auto split: if_splits)
  from assms(3) o obtain xs ys where sp: "order = xs @ obj # ys"
    using split_list [of obj order] by auto
  have dd: "distinct (xs @ obj # ys)"
    using d sp by simp
  let ?s1 = "feed_loop objs get_deps xs s"
  have fp1: "footprint ?s1 obj = expected func obj Pending"
    using footprint_before [OF dd, of objs get_deps s] footprint_pending [OF inv_ok [OF i] assms(3)]
    by simp
  have "list_ex (\<lambda>dep. dep \<in> failed s) (get_deps obj)"
    using assms(4) by (simp add: list_ex_iff)
  then have "list_ex (\<lambda>dep. dep \<in> failed ?s1) (get_deps obj)"
    by (rule list_ex_failed_mono) (rule feed_loop_mono(2))
  from footprint_feed_obj_upstream
    [where get_deps = get_deps and objs = objs and s = "?s1" and obj = obj and func = func,
      OF fp1 this]
  have "footprint (feed_loop objs get_deps order s) obj = expected func obj UpQueued"
    using footprint_feed_loop_at [OF dd, of objs get_deps s] sp by simp
  then have fp: "footprint s' obj = expected func obj UpQueued"
    using s' by (simp add: footprint_feed_queue footprint_pc)
  then have a: "obj \<in> failed s'" and b: "obj \<notin> started s'"
    and c: "evs_of obj (q_events (results s')) = [(obj, None, Some UpstreamError)]"
    and t0: "count_list (threads s') obj = 0" and i0: "count_list (invoked s') obj = 0"
    by (simp_all add: footprint_def)
  have t: "obj \<notin> set (threads s')" and iv: "obj \<notin> set (invoked s')"
    using t0 i0 by (simp_all add: count_list_0_iff)
  have "obj \<notin> set (invoked (run func get_deps acts s'))" for acts
    using never_invoked_run [OF a t iv] .
  then show ?thesis
    using a b c iv pending_not_invoked(3) [OF inv_ok [OF i] assms(3)] by blast
qed

theorem upstream_failure_short_circuit_witness:
  "1 \<in> failed (run work_boom deps_chain [Feed [0, 1], Work 0, Get, Feed [1]] (init [0, 1]))
   \<and> 1 \<notin> started (run work_boom deps_chain [Feed [0, 1], Work 0, Get, Feed [1]] (init [0, 1]))
   \<and> evs_of 1 (q_events (results
        (run work_boom deps_chain [Feed [0, 1], Work 0, Get, Feed [1]] (init [0, 1]))))
      = [(1, None, Some UpstreamError)]
   \<and> 1 \<notin> set (invoked (run work_boom deps_chain [Get, Feed [], Get, Work 1]
        (run work_boom deps_chain [Feed [0, 1], Work 0, Get, Feed [1]] (init [0, 1]))))"
proof -
  define s :: "(nat, nat, string) sys"
    where "s = run work_boom deps_chain [Feed [0, 1], Work 0, Get] (init [0, 1])"
  define s' :: "(nat, nat, string) sys"
    where "s' = run work_boom deps_chain [Feed [0, 1], Work 0, Get, Feed [1]] (init [0, 1])"
  have r: "reachable work_boom deps_chain [0, 1] s"
    unfolding s_def by (rule run_reachable [OF reach_init])
  have st: "step work_boom deps_chain (Feed [1]) s = Some s'"
    unfolding s_def s'_def by code_simp
  have p: "1 \<in> pending s"
    unfolding s_def by code_simp
  have d: "deps_chain 1 = [0]"
    by (simp add: deps_chain_def)
  have "0 \<in> failed s"
    unfolding s_def by code_simp
  then have f: "\<exists>d \<in> set (deps_chain 1). d \<in> failed s"
    using d by simp
  note T = upstream_failure_short_circuit [OF r st p f]
  from T have a: "1 \<in> failed s' \<and> 1 \<notin> started s'
      \<and> evs_of 1 (q_events (results s')) = [(1, None, Some UpstreamError)]"
    by blast
  from T have "\<forall>acts. 1 \<notin> set (invoked (run work_boom deps_chain acts s'))"
    by blast
  then have b: "1 \<notin> set (invoked (run work_boom deps_chain [Get, Feed [], Get, Work 1] s'))"
    by (rule spec)
  from a b show ?thesis
    unfolding s'_def by blast
qed

subsection \<open>Progress of fair runs\<close>

lemma finite_pending: "finite (pending s)"
  by (simp add: pending_def)

lemma work_left_feed_obj:
  assumes "obj \<in> pending s"
  shows "feed_obj objs get_deps obj s = s
    \<or> work_left (feed_obj objs get_deps obj s) < work_left s"
proof -
  have c: "0 < card (pending s)"
    using assms finite_pending [of s] by (auto simp: card_gt_0_iff)
  have d: "card (pending s - {obj}) = card (pending s) - 1"
    using assms finite_pending [of s] by simp
  have p1: "pending (s\<lparr>results := q, failed := insert obj (failed s)\<rparr>) = pending s - {obj}" for q
    by (auto simp: pending_def)
  have p2: "pending (s\<lparr>threads := t, launched := l, started := insert obj (started s)\<rparr>)
      = pending s - {obj}" for t l
    by (auto simp: pending_def)
  show ?thesis
    using c d by (auto simp: feed_obj_def Let_def work_left_def p1 p2 q_events_append)
qed

lemma pending_feed_obj_sub:
  "pending s - {obj} \<subseteq> pending (feed_obj objs get_deps obj s)"
  using pending_feed_obj [of objs get_deps obj s] by auto

lemma work_left_feed_loop_le:
  assumes "set order \<subseteq> pending s" and "distinct order"
  shows "work_left (feed_loop objs get_deps order s) \<le> work_left s"
  using assms
proof (induction order arbitrary: s)
  case Nil
  then show ?case by simp
next
  case (Cons obj rest)
  have "set rest \<subseteq> pending (feed_obj objs get_deps obj s)"
    using Cons.prems pending_feed_obj_sub [of s obj objs get_deps] by auto
  then have "work_left (feed_loop objs get_deps rest (feed_obj objs get_deps obj s))
      \<le> work_left (feed_obj objs get_deps obj s)"
    using Cons.IH Cons.prems(2) by simp
  moreover have "work_left (feed_obj objs get_deps obj s) \<le> work_left s"
    using work_left_feed_obj [of obj s objs get_deps] Cons.prems(1) by auto
  ultimately show ?case by simp
qed

lemma work_left_feed_loop_at:
  assumes "set (xs @ obj # ys) \<subseteq> pending s" and "distinct (xs @ obj # ys)"
    and "feed_obj objs get_deps obj (feed_loop objs get_deps xs s) \<noteq> feed_loop objs get_deps xs s"
  shows "work_left (feed_loop objs get_deps (xs @ obj # ys) s) < work_left s"
proof -
  let ?s1 = "feed_loop objs get_deps xs s"
  let ?s2 = "feed_obj objs get_deps obj ?s1"
  have le1: "work_left ?s1 \<le> work_left s"
    using work_left_feed_loop_le [of xs s objs get_deps] assms(1,2) by simp
  have "footprint ?s1 obj = footprint s obj"
    using footprint_before [OF assms(2)] .
  moreover have "objects ?s1 = objects s"
    by (simp add: feed_loop_fields)
  ultimately have p1: "obj \<in> pending ?s1"
    using assms(1) by (simp add: pending_footprint)
  then have lt: "work_left ?s2 < work_left ?s1"
    using work_left_feed_obj [of obj ?s1 objs get_deps] assms(3) by blast
  have sub: "set ys \<subseteq> pending ?s2"
  proof
    fix y assume y: "y \<in> set ys"
    then have ny: "y \<notin> set xs" "y \<noteq> obj"
      using assms(2) by auto
    have "footprint ?s2 y = footprint s y"
      using ny by (simp add: footprint_feed_obj_other feed_loop_footprint_other)
    moreover have "objects ?s2 = objects s"
      by (simp add: feed_obj_fields feed_loop_fields)
    moreover have "y \<in> pending s"
      using y assms(1) by auto
    ultimately show "y \<in> pending ?s2"
      by (simp add: pending_footprint)
  qed
  have "work_left (feed_loop objs get_deps ys ?s2) \<le> work_left ?s2"
    using work_left_feed_loop_le [OF sub] assms(2) by simp
  with lt le1 show ?thesis
    by (simp add: feed_loop_at)
qed

lemma work_left_feed_queue:
  "work_left (feed_queue objs get_deps order s) = work_left (feed_loop objs get_deps order s)"
  by (simp add: work_left_def feed_queue_fields pending_def feed_loop_fields)

lemma work_left_pc: "work_left (s\<lparr>pc := p\<rparr>) = work_left s"
  by (simp add: work_left_def pending_def)

lemma length_remove1_mem: "x \<in> set xs \<Longrightarrow> Suc (length (remove1 x xs)) = length xs"
  by (induction xs) auto

lemma work_left_producer:
  assumes "obj \<in> set (threads s)"
  shows "work_left (producer func obj s) < work_left s"
  using length_remove1_mem [OF assms] outcome_length [of func obj]
  by (simp add: producer_outcome work_left_def pending_def q_events_append q_events_map_Event
      del: outcome_length)

lemma pending_get_event: "card (pending (get_event s)) \<le> card (pending s)"
proof -
  have "pending (get_event s) \<subseteq> pending s"
    by (auto simp: pending_def get_event_def split: list.splits item.splits if_splits prod.splits)
  then show ?thesis
    by (simp add: card_mono finite_pending)
qed

lemma q_events_get_event:
  "length (q_events (results (get_event s))) \<le> length (q_events (results s))"
  "results s = Event ev # q \<Longrightarrow>
     length (q_events (results (get_event s))) < length (q_events (results s))"
  by (auto simp: get_event_def split: list.splits item.splits if_splits prod.splits)

lemma work_left_get_event:
  "work_left (get_event s) \<le> work_left s"
  using pending_get_event [of s] q_events_get_event(1) [of s]
  by (simp add: work_left_def get_event_mono)

lemma work_left_get_event_pop:
  assumes "results s = Event ev # q"
  shows "work_left (get_event s) < work_left s"
  using pending_get_event [of s] q_events_get_event(2) [OF assms]
  by (simp add: work_left_def get_event_mono)

declare exec.simps [simp del]

lemma fair_no_shutdown:
  "fair func get_deps objs sched \<Longrightarrow> pc (exec func get_deps objs sched n) \<noteq> Shutdown"
  by (simp add: fair_def)

lemma fair_coordinator:
  "fair func get_deps objs sched \<Longrightarrow>
     pc (exec func get_deps objs sched n) = AtFeed \<or> pc (exec func get_deps objs sched n) = AtGet \<Longrightarrow>
     \<exists>m>n. pc (exec func get_deps objs sched m) \<noteq> pc (exec func get_deps objs sched n)"
  unfolding fair_def by blast

lemma fair_threads:
  "fair func get_deps objs sched \<Longrightarrow> obj \<in> set (threads (exec func get_deps objs sched n)) \<Longrightarrow>
     \<exists>m>n. obj \<notin> set (threads (exec func get_deps objs sched m))"
  by (simp add: fair_def)

lemma feed_loop_threads_mono:
  "set (threads s) \<subseteq> set (threads (feed_loop objs get_deps order s))"
proof (induction order arbitrary: s)
  case Nil
  then show ?case by simp
next
  case (Cons obj rest)
  have "set (threads s) \<subseteq> set (threads (feed_obj objs get_deps obj s))"
    by (auto simp: feed_obj_def Let_def)
  with Cons.IH [of "feed_obj objs get_deps obj s"] show ?case by auto
qed

lemma step_cases:
  assumes "step func get_deps a s = Some s'"
  obtains (Feed) order where "a = Feed order" and "pc s = AtFeed" and "distinct order"
      and "set order = pending s"
      and "s' = (feed_queue (objects s) get_deps order s)\<lparr>pc := AtGet\<rparr>"
    | (Get) "a = Get" and "pc s = AtGet" and "s' = get_event s"
    | (Work) obj where "a = Work obj" and "obj \<in> set (threads s)" and "s' = producer func obj s"
    | (Interrupt) "a = Interrupt" and "pc s = AtGet" and "s' = s\<lparr>pc := Shutdown\<rparr>"
  using assms by (cases a) (auto split: if_splits)

lemma step_work_left_le:
  assumes "step func get_deps a s = Some s'"
  shows "work_left s' \<le> work_left s"
  using assms
proof (cases rule: step_cases)
  case (Feed order)
  then show ?thesis
    using work_left_feed_loop_le [of order s "objects s" get_deps]
    by (simp add: work_left_pc work_left_feed_queue)
next
  case Get
  then show ?thesis by (simp add: work_left_get_event)
next
  case (Work obj)
  then show ?thesis using work_left_producer [of obj s func] by simp
next
  case Interrupt
  then show ?thesis by (simp add: work_left_pc)
qed

lemma step_thread_leaves:
  assumes "step func get_deps a s = Some s'"
    and "obj \<in> set (threads s)" and "obj \<notin> set (threads s')"
  shows "work_left s' < work_left s"
  using assms(1)
proof (cases rule: step_cases)
  case (Feed order)
  then show ?thesis
    using feed_loop_threads_mono [of s "objects s" get_deps order] assms(2,3)
    by (auto simp: feed_queue_fields)
next
  case Get
  then show ?thesis using assms(2,3) by (simp add: get_event_mono)
next
  case (Work x)
  then show ?thesis using work_left_producer [of x s func] by simp
next
  case Interrupt
  then show ?thesis using assms(2,3) by simp
qed

lemma exec_Suc:
  "exec func get_deps objs sched (Suc n) = exec func get_deps objs sched n
   \<or> step func get_deps (sched n) (exec func get_deps objs sched n)
       = Some (exec func get_deps objs sched (Suc n))"
  by (cases "step func get_deps (sched n) (exec func get_deps objs sched n)")
    (simp_all add: Let_def exec.simps)

lemma exec_work_left_Suc:
  "work_left (exec func get_deps objs sched (Suc n)) \<le> work_left (exec func get_deps objs sched n)"
proof (cases "exec func get_deps objs sched (Suc n) = exec func get_deps objs sched n")
  case True
  then show ?thesis by simp
next
  case False
  then have "step func get_deps (sched n) (exec func get_deps objs sched n)
      = Some (exec func get_deps objs sched (Suc n))"
    using exec_Suc [of func get_deps objs sched n] by simp
  then show ?thesis by (rule step_work_left_le)
qed

lemma exec_work_left_mono:
  "work_left (exec func get_deps objs sched (n + k)) \<le> work_left (exec func get_deps objs sched n)"
proof (induction k)
  case 0
  show ?case by simp
next
  case (Suc k)
  have "work_left (exec func get_deps objs sched (Suc (n + k)))
      \<le> work_left (exec func get_deps objs sched (n + k))"
    by (rule exec_work_left_Suc)
  with Suc show ?case by simp
qed

lemma exec_work_left_le:
  "n \<le> m \<Longrightarrow>
     work_left (exec func get_deps objs sched m) \<le> work_left (exec func get_deps objs sched n)"
  using exec_work_left_mono [of func get_deps objs sched n "m - n"] by simp

lemma exec_thread_leaves:
  assumes "obj \<in> set (threads (exec func get_deps objs sched n))"
    and "obj \<notin> set (threads (exec func get_deps objs sched (n + k)))"
  shows "work_left (exec func get_deps objs sched (n + k)) < work_left (exec func get_deps objs sched n)"
  using assms(2)
proof (induction k)
  case 0
  with assms(1) show ?case by simp
next
  case (Suc k)
  let ?a = "exec func get_deps objs sched (n + k)"
  let ?b = "exec func get_deps objs sched (Suc (n + k))"
  show ?case
  proof (cases "obj \<in> set (threads ?a)")
    case False
    then have "work_left ?a < work_left (exec func get_deps objs sched n)"
      by (rule Suc.IH)
    moreover have "work_left ?b \<le> work_left ?a"
      by (rule exec_work_left_Suc)
    ultimately show ?thesis by simp
  next
    case True
    have nb: "obj \<notin> set (threads ?b)"
      using Suc.prems by simp
    with True have "?b \<noteq> ?a" by auto
    then have "step func get_deps (sched (n + k)) ?a = Some ?b"
      using exec_Suc [of func get_deps objs sched "n + k"] by simp
    from step_thread_leaves [OF this True nb]
    have "work_left ?b < work_left ?a" .
    moreover have "work_left ?a \<le> work_left (exec func get_deps objs sched n)"
      by (rule exec_work_left_mono)
    ultimately show ?thesis by simp
  qed
qed

lemma fair_thread_progress:
  assumes "fair func get_deps objs sched"
    and "obj \<in> set (threads (exec func get_deps objs sched n))"
  shows "\<exists>m>n. work_left (exec func get_deps objs sched m)
      < work_left (exec func get_deps objs sched n)"
proof -
  from fair_threads [OF assms] obtain m
    where m: "m > n" "obj \<notin> set (threads (exec func get_deps objs sched m))"
    by blast
  then have "obj \<notin> set (threads (exec func get_deps objs sched (n + (m - n))))"
    by simp
  from exec_thread_leaves [OF assms(2) this] m(1) show ?thesis
    by auto
qed

lemma next_change:
  assumes "pc (exec func get_deps objs sched n) = p"
    and "pc (exec func get_deps objs sched (n + d)) \<noteq> p"
  shows "\<exists>m\<ge>n. pc (exec func get_deps objs sched m) = p
      \<and> pc (exec func get_deps objs sched (Suc m)) \<noteq> p
      \<and> (\<forall>k. n \<le> k \<and> k \<le> m \<longrightarrow> pc (exec func get_deps objs sched k) = p)"
  using assms
proof (induction d arbitrary: n)
  case 0
  then show ?case by simp
next
  case (Suc d)
  show ?case
  proof (cases "pc (exec func get_deps objs sched (Suc n)) = p")
    case False
    with Suc.prems(1) show ?thesis
      by (intro exI [of _ n]) auto
  next
    case True
    from Suc.IH [OF True] Suc.prems(2)
    obtain m where m: "m \<ge> Suc n" "pc (exec func get_deps objs sched m) = p"
      "pc (exec func get_deps objs sched (Suc m)) \<noteq> p"
      "\<forall>k. Suc n \<le> k \<and> k \<le> m \<longrightarrow> pc (exec func get_deps objs sched k) = p"
      by auto
    have "\<forall>k. n \<le> k \<and> k \<le> m \<longrightarrow> pc (exec func get_deps objs sched k) = p"
    proof (intro allI impI)
      fix k assume "n \<le> k \<and> k \<le> m"
      then have "k = n \<or> (Suc n \<le> k \<and> k \<le> m)" by auto
      then show "pc (exec func get_deps objs sched k) = p"
        using Suc.prems(1) m(4) by auto
    qed
    with m show ?thesis
      by (intro exI [of _ m]) auto
  qed
qed

lemma fair_next:
  assumes "fair func get_deps objs sched"
    and "pc (exec func get_deps objs sched n) = p" and "p = AtFeed \<or> p = AtGet"
  shows "\<exists>m\<ge>n. pc (exec func get_deps objs sched m) = p
      \<and> pc (exec func get_deps objs sched (Suc m)) \<noteq> p
      \<and> (\<forall>k. n \<le> k \<and> k \<le> m \<longrightarrow> pc (exec func get_deps objs sched k) = p)"
proof -
  from fair_coordinator [OF assms(1), of n] assms(2,3)
  obtain m0 where "m0 > n" "pc (exec func get_deps objs sched m0) \<noteq> p"
    by blast
  then have "pc (exec func get_deps objs sched (n + (m0 - n))) \<noteq> p" by simp
  from next_change [OF assms(2) this] show ?thesis .
qed

lemma pc_get_event: "pc (get_event s) = AtFeed \<or> pc (get_event s) = Done"
  by (auto simp: get_event_def split: list.splits item.splits prod.splits)

lemma results_feed_loop:
  "\<exists>q. results (feed_loop objs get_deps order s) = results s @ q"
proof (induction order arbitrary: s)
  case Nil
  then show ?case by simp
next
  case (Cons obj rest)
  from Cons.IH [of "feed_obj objs get_deps obj s"] obtain q
    where q: "results (feed_loop objs get_deps rest (feed_obj objs get_deps obj s))
      = results (feed_obj objs get_deps obj s) @ q"
    by blast
  from feed_obj_results [of objs get_deps obj s] show ?case
  proof
    assume "results (feed_obj objs get_deps obj s) = results s"
    with q show ?thesis by simp
  next
    assume "results (feed_obj objs get_deps obj s)
        = results s @ [Event (obj, None, Some UpstreamError)]"
    with q show ?thesis by simp
  qed
qed

lemma results_feed_queue:
  "\<exists>q. results (feed_queue objs get_deps order s) = results s @ q"
proof -
  from results_feed_loop [of objs get_deps order s] obtain q
    where "results (feed_loop objs get_deps order s) = results s @ q"
    by blast
  then show ?thesis
    by (simp add: feed_queue_def Let_def)
qed

lemma step_keeps_queue:
  assumes "step func get_deps a s = Some s'"
    and "pc s = AtGet" and "pc s' = AtGet" and "results s \<noteq> []"
  shows "results s' \<noteq> []"
  using assms(1)
proof (cases rule: step_cases)
  case (Feed order)
  with assms(2) show ?thesis by simp
next
  case Get
  with assms(3) pc_get_event [of s] show ?thesis by auto
next
  case (Work obj)
  then show ?thesis using assms(4) by (simp add: producer_outcome)
next
  case Interrupt
  with assms(3) show ?thesis by simp
qed

lemma done_work_left:
  assumes "inv func objs s" and "pc s = Done"
  shows "work_left s = 0"
proof -
  from inv_done [OF assms] have d: "is_done s" and q: "q_events (results s) = []"
    by simp_all
  from done_no_pending [of func objs s] inv_ok [OF assms(1)] inv_objects [OF assms(1)] d
  have "pending s = {}" "threads s = []" by blast+
  with q show ?thesis by (simp add: work_left_def)
qed

lemma exec_inv: "inv func objs (exec func get_deps objs sched n)"
  using exec_reachable by (rule reachable_inv)

lemma get_nonempty_progress:
  assumes "fair func get_deps objs sched"
    and "pc (exec func get_deps objs sched n) = AtGet"
    and "results (exec func get_deps objs sched n) \<noteq> []"
  shows "\<exists>m>n. work_left (exec func get_deps objs sched m)
        < work_left (exec func get_deps objs sched n)
      \<or> pc (exec func get_deps objs sched m) = Done"
proof -
  let ?e = "exec func get_deps objs sched"
  from fair_next [OF assms(1,2)] obtain m where m: "m \<ge> n" "pc (?e m) = AtGet"
    "pc (?e (Suc m)) \<noteq> AtGet" "\<forall>k. n \<le> k \<and> k \<le> m \<longrightarrow> pc (?e k) = AtGet"
    by auto
  have ne: "n + j \<le> m \<Longrightarrow> results (?e (n + j)) \<noteq> []" for j
  proof (induction j)
    case 0
    then show ?case using assms(3) by simp
  next
    case (Suc j)
    then have IH: "results (?e (n + j)) \<noteq> []" by simp
    have p1: "pc (?e (n + j)) = AtGet" and p2: "pc (?e (Suc (n + j))) = AtGet"
      using m(4) Suc.prems by auto
    show ?case
    proof (cases "?e (Suc (n + j)) = ?e (n + j)")
      case True
      then show ?thesis using IH by simp
    next
      case False
      then have "step func get_deps (sched (n + j)) (?e (n + j)) = Some (?e (Suc (n + j)))"
        using exec_Suc [of func get_deps objs sched "n + j"] by simp
      from step_keeps_queue [OF this p1 p2 IH] show ?thesis by simp
    qed
  qed
  have "results (?e (n + (m - n))) \<noteq> []"
    using m(1) by (intro ne) simp
  then have nem: "results (?e m) \<noteq> []"
    using m(1) by simp
  have "?e (Suc m) \<noteq> ?e m"
    using m(2,3) by auto
  then have st: "step func get_deps (sched m) (?e m) = Some (?e (Suc m))"
    using exec_Suc [of func get_deps objs sched m] by simp
  have ge: "?e (Suc m) = get_event (?e m)"
    using st
  proof (cases rule: step_cases)
    case (Feed order)
    with m(2) show ?thesis by simp
  next
    case Get
    then show ?thesis by simp
  next
    case (Work obj)
    then have "pc (?e (Suc m)) = pc (?e m)" by (simp add: producer_outcome)
    with m(2,3) show ?thesis by simp
  next
    case Interrupt
    then have "pc (?e (Suc m)) = Shutdown" by simp
    with fair_no_shutdown [OF assms(1), of "Suc m"] show ?thesis by simp
  qed
  from nem obtain x q where xq: "results (?e m) = x # q"
    by (cases "results (?e m)") auto
  show ?thesis
  proof (cases x)
    case STOP
    with xq ge have "pc (?e (Suc m)) = Done"
      by (simp add: get_event_STOP)
    with m(1) show ?thesis
      by (intro exI [of _ "Suc m"]) simp
  next
    case (Event ev)
    with xq have "work_left (get_event (?e m)) < work_left (?e m)"
      by (intro work_left_get_event_pop) simp
    moreover have "work_left (?e m) \<le> work_left (?e n)"
      using m(1) by (rule exec_work_left_le)
    ultimately have "work_left (?e (Suc m)) < work_left (?e n)"
      using ge by simp
    with m(1) show ?thesis
      by (intro exI [of _ "Suc m"]) simp
  qed
qed

lemma finite_dep_rel: "finite (dep_rel get_deps objs)"
proof -
  have "dep_rel get_deps objs \<subseteq> set objs \<times> set objs"
    by (auto simp: dep_rel_def)
  then show ?thesis
    by (rule finite_subset) simp
qed

lemma minimal_pending:
  assumes "acyclic (dep_rel get_deps objs)" and "pending s \<noteq> {}"
  shows "\<exists>z \<in> pending s. \<forall>d. (z, d) \<in> dep_rel get_deps objs \<longrightarrow> d \<notin> pending s"
proof -
  have "wf ((dep_rel get_deps objs)\<inverse>)"
    using finite_dep_rel [of get_deps objs] assms(1)
    by (intro finite_acyclic_wf) simp_all
  moreover from assms(2) obtain x where "x \<in> pending s" by blast
  ultimately obtain z where "z \<in> pending s"
    and "\<And>y. (y, z) \<in> (dep_rel get_deps objs)\<inverse> \<Longrightarrow> y \<notin> pending s"
    by (rule wfE_min) blast
  then show ?thesis by auto
qed

lemma idle_started_terminal:
  assumes "obj_ok func objs s d" and "threads s = []" and "q_events (results s) = []"
    and "d \<in> set objs" and "objects s = objs" and "d \<notin> pending s"
    and "func d \<noteq> Escapes"
  shows "d \<in> finished s \<or> d \<in> failed s"
proof -
  from assms(1) obtain ph where ph: "footprint s d = expected func d ph"
    unfolding obj_ok_def by blast
  have "d \<in> started s \<or> d \<in> finished s \<or> d \<in> failed s"
    using assms(4,5,6) by (simp add: pending_def)
  then show ?thesis
    using ph assms(2,3,7)
    by (cases ph; cases "func d") (auto simp: footprint_def evs_of_Nil outcome_def)
qed

lemma feed_obj_changes:
  assumes "list_ex (\<lambda>dep. dep \<in> failed s) (get_deps obj)
      \<or> list_all (\<lambda>dep. dep \<notin> set objs \<or> dep \<in> finished s) (get_deps obj)"
  shows "feed_obj objs get_deps obj s \<noteq> s"
proof
  assume eq: "feed_obj objs get_deps obj s = s"
  then have "length (results (feed_obj objs get_deps obj s)) = length (results s)"
    and "length (threads (feed_obj objs get_deps obj s)) = length (threads s)"
    by simp_all
  with assms show False
    by (auto simp: feed_obj_def Let_def split: if_splits)
qed

lemma feed_progress:
  assumes "inv func objs s" and "threads s = []" and "q_events (results s) = []"
    and "pending s \<noteq> {}" and "acyclic (dep_rel get_deps objs)"
    and "distinct order" and "set order = pending s"
    and "\<forall>obj \<in> set objs. func obj \<noteq> Escapes"
  shows "work_left (feed_loop objs get_deps order s) < work_left s"
proof -
  from minimal_pending [OF assms(5,4)] obtain z where z: "z \<in> pending s"
    and zmin: "\<forall>d. (z, d) \<in> dep_rel get_deps objs \<longrightarrow> d \<notin> pending s"
    by blast
  have obs: "objects s = objs"
    using assms(1) by (rule inv_objects)
  have zo: "z \<in> set objs"
    using z obs by (simp add: pending_def)
  from z assms(7) obtain xs ys where sp: "order = xs @ z # ys"
    using split_list [of z order] by auto
  let ?s1 = "feed_loop objs get_deps xs s"
  have ch: "feed_obj objs get_deps z ?s1 \<noteq> ?s1"
  proof (rule feed_obj_changes, rule disjCI)
    assume nf: "\<not> list_all (\<lambda>dep. dep \<notin> set objs \<or> dep \<in> finished ?s1) (get_deps z)"
    then obtain d where d: "d \<in> set (get_deps z)" "d \<in> set objs" "d \<notin> finished s"
      by (auto simp: list_all_iff feed_loop_fields)
    then have "(z, d) \<in> dep_rel get_deps objs"
      using zo by (simp add: dep_rel_def)
    then have "d \<notin> pending s" using zmin by blast
    moreover have "func d \<noteq> Escapes" using assms(8) d(2) by blast
    ultimately have "d \<in> finished s \<or> d \<in> failed s"
      using idle_started_terminal [OF inv_ok [OF assms(1)] assms(2,3) d(2) obs] by blast
    with d(3) have "d \<in> failed s" by simp
    then have "d \<in> failed ?s1"
      using feed_loop_mono(2) [of s objs get_deps xs] by blast
    with d(1) show "list_ex (\<lambda>dep. dep \<in> failed ?s1) (get_deps z)"
      by (auto simp: list_ex_iff)
  qed
  have "set (xs @ z # ys) \<subseteq> pending s" and "distinct (xs @ z # ys)"
    using assms(6,7) sp by simp_all
  from work_left_feed_loop_at [OF this ch] show ?thesis
    using sp by simp
qed

lemma coordinator_step:
  assumes "fair func get_deps objs sched"
    and "pc (exec func get_deps objs sched m) = p" and "p = AtFeed \<or> p = AtGet"
    and "pc (exec func get_deps objs sched (Suc m)) \<noteq> p"
  shows "(p = AtFeed \<longrightarrow> (\<exists>order. distinct order
            \<and> set order = pending (exec func get_deps objs sched m)
            \<and> exec func get_deps objs sched (Suc m)
               = (feed_queue objs get_deps order (exec func get_deps objs sched m))\<lparr>pc := AtGet\<rparr>))
    \<and> (p = AtGet \<longrightarrow> exec func get_deps objs sched (Suc m)
            = get_event (exec func get_deps objs sched m))"
proof -
  let ?e = "exec func get_deps objs sched"
  have "?e (Suc m) \<noteq> ?e m"
    using assms(2,4) by auto
  then have st: "step func get_deps (sched m) (?e m) = Some (?e (Suc m))"
    using exec_Suc [of func get_deps objs sched m] by simp
  have obs: "objects (?e m) = objs"
    using exec_inv by (rule inv_objects)
  from st show ?thesis
  proof (cases rule: step_cases)
    case (Feed order)
    then show ?thesis using obs assms(2) by auto
  next
    case Get
    then show ?thesis using assms(2) by auto
  next
    case (Work obj)
    then have "pc (?e (Suc m)) = pc (?e m)" by (simp add: producer_outcome)
    with assms(2,4) show ?thesis by simp
  next
    case Interrupt
    then have "pc (?e (Suc m)) = Shutdown" by simp
    with fair_no_shutdown [OF assms(1), of "Suc m"] show ?thesis by simp
  qed
qed

lemma feed_progress_exec:
  assumes "fair func get_deps objs sched" and "acyclic (dep_rel get_deps objs)"
    and "pc (exec func get_deps objs sched n) = AtFeed"
    and "0 < work_left (exec func get_deps objs sched n)"
    and "\<forall>obj \<in> set objs. func obj \<noteq> Escapes"
  shows "\<exists>m>n. work_left (exec func get_deps objs sched m)
      < work_left (exec func get_deps objs sched n)"
proof -
  let ?e = "exec func get_deps objs sched"
  from fair_next [OF assms(1,3)] obtain m where m: "m \<ge> n" "pc (?e m) = AtFeed"
    "pc (?e (Suc m)) \<noteq> AtFeed"
    by auto
  from coordinator_step [OF assms(1) m(2) _ m(3)] obtain order
    where o: "distinct order" "set order = pending (?e m)"
      and s1: "?e (Suc m) = (feed_queue objs get_deps order (?e m))\<lparr>pc := AtGet\<rparr>"
    by auto
  have le: "work_left (?e m) \<le> work_left (?e n)"
    using m(1) by (rule exec_work_left_le)
  have w1: "work_left (?e (Suc m)) = work_left (feed_loop objs get_deps order (?e m))"
    using s1 by (simp add: work_left_pc work_left_feed_queue)
  have le1: "work_left (?e (Suc m)) \<le> work_left (?e m)"
    by (rule exec_work_left_Suc)
  show ?thesis
  proof (cases "work_left (?e (Suc m)) < work_left (?e n)")
    case True
    with m(1) show ?thesis by (intro exI [of _ "Suc m"]) simp
  next
    case False
    with le le1 have eq: "work_left (?e (Suc m)) = work_left (?e m)"
      and pos: "0 < work_left (?e m)" and eqn: "work_left (?e (Suc m)) = work_left (?e n)"
      using assms(4) by simp_all
    show ?thesis
    proof (cases "threads (?e (Suc m)) = []")
      case False
      then obtain obj where "obj \<in> set (threads (?e (Suc m)))"
        by (cases "threads (?e (Suc m))") auto
      from fair_thread_progress [OF assms(1) this] obtain m'
        where "m' > Suc m" "work_left (?e m') < work_left (?e (Suc m))"
        by blast
      with eqn m(1) show ?thesis by (intro exI [of _ m']) simp
    next
      case True
      note nothreads = this
      show ?thesis
      proof (cases "results (?e (Suc m)) = []")
        case False
        have "pc (?e (Suc m)) = AtGet" using s1 by simp
        from get_nonempty_progress [OF assms(1) this False] obtain m'
          where m': "m' > Suc m"
            "work_left (?e m') < work_left (?e (Suc m)) \<or> pc (?e m') = Done"
          by blast
        have "work_left (?e m') < work_left (?e (Suc m))"
          using m'(2) done_work_left [OF exec_inv, of func get_deps objs sched m'] eq pos
          by auto
        with eqn m(1) m'(1) show ?thesis by (intro exI [of _ m']) simp
      next
        case True
        have "set (threads (?e m)) \<subseteq> set (threads (?e (Suc m)))"
          using s1 feed_loop_threads_mono [of "?e m" objs get_deps order]
          by (simp add: feed_queue_fields)
        with nothreads have t: "threads (?e m) = []" by simp
        from results_feed_queue [of objs get_deps order "?e m"] True s1
        have "results (?e m) = []" by auto
        then have q: "q_events (results (?e m)) = []" by simp
        have "pending (?e m) \<noteq> {}"
          using pos t q by (auto simp: work_left_def)
        from feed_progress [OF exec_inv t q this assms(2) o assms(5)]
        have "work_left (?e (Suc m)) < work_left (?e m)"
          using w1 by simp
        with eq show ?thesis by simp
      qed
    qed
  qed
qed

lemma get_progress_exec:
  assumes "fair func get_deps objs sched" and "acyclic (dep_rel get_deps objs)"
    and "pc (exec func get_deps objs sched n) = AtGet"
    and "0 < work_left (exec func get_deps objs sched n)"
    and "\<forall>obj \<in> set objs. func obj \<noteq> Escapes"
  shows "\<exists>m>n. work_left (exec func get_deps objs sched m)
      < work_left (exec func get_deps objs sched n)"
proof -
  let ?e = "exec func get_deps objs sched"
  from fair_next [OF assms(1,3)] obtain m where m: "m \<ge> n" "pc (?e m) = AtGet"
    "pc (?e (Suc m)) \<noteq> AtGet"
    by auto
  from coordinator_step [OF assms(1) m(2) _ m(3)]
  have ge: "?e (Suc m) = get_event (?e m)" by auto
  have le: "work_left (?e (Suc m)) \<le> work_left (?e n)"
    using exec_work_left_le [of n "Suc m" func get_deps objs sched] m(1) by simp
  show ?thesis
  proof (cases "work_left (?e (Suc m)) < work_left (?e n)")
    case True
    with m(1) show ?thesis by (intro exI [of _ "Suc m"]) simp
  next
    case False
    with le have eqn: "work_left (?e (Suc m)) = work_left (?e n)" by simp
    have "pc (?e (Suc m)) \<noteq> Done"
      using done_work_left [OF exec_inv, of func get_deps objs sched "Suc m"] eqn assms(4)
      by auto
    then have "pc (?e (Suc m)) = AtFeed"
      using pc_get_event [of "?e m"] ge by auto
    from feed_progress_exec [OF assms(1,2) this _ assms(5)] eqn assms(4) obtain m'
      where "m' > Suc m" "work_left (?e m') < work_left (?e (Suc m))"
      by auto
    with eqn m(1) show ?thesis by (intro exI [of _ m']) simp
  qed
qed

lemma progress:
  assumes "fair func get_deps objs sched" and "acyclic (dep_rel get_deps objs)"
    and "0 < work_left (exec func get_deps objs sched n)"
    and "\<forall>obj \<in> set objs. func obj \<noteq> Escapes"
  shows "\<exists>m>n. work_left (exec func get_deps objs sched m)
      < work_left (exec func get_deps objs sched n)"
proof (cases "pc (exec func get_deps objs sched n)")
  case AtFeed
  then show ?thesis by (rule feed_progress_exec [OF assms(1,2) _ assms(3,4)])
next
  case AtGet
  then show ?thesis by (rule get_progress_exec [OF assms(1,2) _ assms(3,4)])
next
  case Done
  from done_work_left [OF exec_inv this] assms(3) show ?thesis by simp
next
  case Shutdown
  with fair_no_shutdown [OF assms(1), of n] show ?thesis by simp
qed

lemma all_work_done:
  assumes "fair func get_deps objs sched" and "acyclic (dep_rel get_deps objs)"
    and "\<forall>obj \<in> set objs. func obj \<noteq> Escapes"
  shows "\<exists>m\<ge>n. work_left (exec func get_deps objs sched m) = 0"
proof (induction "work_left (exec func get_deps objs sched n)" arbitrary: n rule: less_induct)
  case less
  show ?case
  proof (cases "work_left (exec func get_deps objs sched n) = 0")
    case True
    then show ?thesis by (intro exI [of _ n]) simp
  next
    case False
    then have "0 < work_left (exec func get_deps objs sched n)" by simp
    from progress [OF assms(1,2) this assms(3)] obtain m where m: "m > n"
      "work_left (exec func get_deps objs sched m) < work_left (exec func get_deps objs sched n)"
      by blast
    from less [OF m(2)] obtain m' where "m' \<ge> m"
      "work_left (exec func get_deps objs sched m') = 0"
      by blast
    with m(1) show ?thesis by (intro exI [of _ m']) simp
  qed
qed

subsection \<open>Termination of fair runs\<close>

lemma count_one_mem: "count_list xs x = Suc 0 \<Longrightarrow> x \<in> set xs"
  using count_list_0_iff [of xs x] by auto

lemma idle_footprint:
  assumes "inv func objs s" and "work_left s = 0"
  shows "obj \<in> set objs \<Longrightarrow>
      footprint s obj = expected func obj Yielded \<or> footprint s obj = expected func obj UpYielded"
    and "obj \<notin> set objs \<Longrightarrow> footprint s obj = expected func obj Pending"
proof -
  from assms(2) have p: "pending s = {}" and t: "threads s = []"
    and q: "q_events (results s) = []"
    using finite_pending [of s] by (simp_all add: work_left_def)
  from inv_ok [OF assms(1), of obj] obtain ph where ph: "footprint s obj = expected func obj ph"
    and mem: "ph = Pending \<or> obj \<in> set objs"
    unfolding obj_ok_def by blast
  have obs: "objects s = objs" using assms(1) by (rule inv_objects)
  {
    assume o: "obj \<in> set objs"
    have "obj \<notin> pending s" using p by simp
    then have "obj \<in> started s \<or> obj \<in> finished s \<or> obj \<in> failed s"
      using o obs by (simp add: pending_def)
    then show "footprint s obj = expected func obj Yielded
        \<or> footprint s obj = expected func obj UpYielded"
      using ph t q
      by (cases ph; cases "func obj") (auto simp: footprint_def evs_of_Nil outcome_def)
  }
  {
    assume "obj \<notin> set objs"
    with mem ph show "footprint s obj = expected func obj Pending" by auto
  }
qed

lemma idle_yielded:
  assumes "inv func objs s" and "work_left s = 0"
    and "\<forall>obj \<in> set objs. func obj \<noteq> Escapes"
  shows "set (map ev_obj (yielded s)) = set objs"
    and "finished s \<union> failed s = set objs"
    and "\<forall>ev \<in> set (yielded s).
          outcome func (ev_obj ev) = [ev] \<and> ev_obj ev \<in> set (invoked s)
          \<or> ev = (ev_obj ev, None, Some UpstreamError) \<and> ev_obj ev \<notin> set (invoked s)"
proof -
  note f = idle_footprint [OF assms(1,2)]
  have in_y: "obj \<in> ev_obj ` set (yielded s) \<longleftrightarrow> evs_of obj (yielded s) \<noteq> []" for obj
    by (auto simp: evs_of_def filter_empty_conv)
  have "obj \<in> ev_obj ` set (yielded s) \<longleftrightarrow> obj \<in> set objs" for obj
    using f(1) [of obj] f(2) [of obj] in_y [of obj] assms(3)
    by (cases "obj \<in> set objs") (auto simp: footprint_def)
  then show "set (map ev_obj (yielded s)) = set objs" by auto
  have "obj \<in> finished s \<union> failed s \<longleftrightarrow> obj \<in> set objs" for obj
    using f(1) [of obj] f(2) [of obj] assms(3)
    by (cases "obj \<in> set objs"; cases "func obj") (auto simp: footprint_def)
  then show "finished s \<union> failed s = set objs" by auto
  show "\<forall>ev \<in> set (yielded s).
          outcome func (ev_obj ev) = [ev] \<and> ev_obj ev \<in> set (invoked s)
          \<or> ev = (ev_obj ev, None, Some UpstreamError) \<and> ev_obj ev \<notin> set (invoked s)"
  proof
    fix ev assume ev: "ev \<in> set (yielded s)"
    then have m: "ev \<in> set (evs_of (ev_obj ev) (yielded s))"
      by (simp add: evs_of_def)
    then have "ev_obj ev \<in> ev_obj ` set (yielded s)" using ev by blast
    then have "ev_obj ev \<in> set objs"
      using \<open>set (map ev_obj (yielded s)) = set objs\<close> by simp
    from f(1) [OF this] m
    show "outcome func (ev_obj ev) = [ev] \<and> ev_obj ev \<in> set (invoked s)
          \<or> ev = (ev_obj ev, None, Some UpstreamError) \<and> ev_obj ev \<notin> set (invoked s)"
      by (auto simp: footprint_def count_list_0_iff outcome_def split: call.splits
          dest: count_one_mem)
  qed
qed

lemma done_absorbing_step:
  assumes "inv func objs s" and "pc s = Done"
  shows "step func get_deps a s = None"
proof -
  from inv_done [OF assms] have "is_done s" by simp
  from done_no_pending(2) [of func objs s] inv_ok [OF assms(1)] inv_objects [OF assms(1)] this
  have "threads s = []" by blast
  with assms(2) show ?thesis by (cases a) auto
qed

lemma done_absorbing:
  assumes "pc (exec func get_deps objs sched n) = Done"
  shows "exec func get_deps objs sched (n + k) = exec func get_deps objs sched n"
proof (induction k)
  case 0
  show ?case by simp
next
  case (Suc k)
  have "step func get_deps (sched (n + k)) (exec func get_deps objs sched n) = None"
    using done_absorbing_step [OF exec_inv assms] .
  then show ?case
    using Suc by (simp add: exec.simps Let_def)
qed

lemma idle_stays_idle:
  assumes "work_left (exec func get_deps objs sched n) = 0" and "n \<le> m"
  shows "work_left (exec func get_deps objs sched m) = 0"
  using exec_work_left_le [OF assms(2), of func get_deps objs sched] assms(1) by simp

lemma idle_done:
  assumes "inv func objs s" and "work_left s = 0" and "distinct objs"
    and "\<forall>obj \<in> set objs. func obj \<noteq> Escapes"
  shows "is_done s"
  using is_done_iff [of func objs s] inv_ok [OF assms(1)] inv_objects [OF assms(1)]
    idle_yielded(2) [OF assms(1,2,4)] assms(3)
  by blast

lemma idle_queue_stops:
  assumes "work_left s = 0" and "results s = x # q"
  shows "x = STOP"
  using assms by (cases x) (simp_all add: work_left_def)

lemma idle_get_terminates:
  assumes "fair func get_deps objs sched"
    and "pc (exec func get_deps objs sched n) = AtGet"
    and "results (exec func get_deps objs sched n) \<noteq> []"
    and "work_left (exec func get_deps objs sched n) = 0"
  shows "\<exists>m>n. pc (exec func get_deps objs sched m) = Done"
proof -
  from get_nonempty_progress [OF assms(1,2,3)] assms(4) show ?thesis by auto
qed

lemma idle_feed_terminates:
  assumes "fair func get_deps objs sched" and "distinct objs"
    and "pc (exec func get_deps objs sched n) = AtFeed"
    and "work_left (exec func get_deps objs sched n) = 0"
    and "\<forall>obj \<in> set objs. func obj \<noteq> Escapes"
  shows "\<exists>m>n. pc (exec func get_deps objs sched m) = Done"
proof -
  let ?e = "exec func get_deps objs sched"
  from fair_next [OF assms(1,3)] obtain m where m: "m \<ge> n" "pc (?e m) = AtFeed"
    "pc (?e (Suc m)) \<noteq> AtFeed"
    by auto
  from coordinator_step [OF assms(1) m(2) _ m(3)] obtain order
    where s1: "?e (Suc m) = (feed_queue objs get_deps order (?e m))\<lparr>pc := AtGet\<rparr>"
    by auto
  have z: "work_left (?e (Suc m)) = 0"
    using idle_stays_idle [OF assms(4), of "Suc m"] m(1) by simp
  then have z': "work_left (feed_queue objs get_deps order (?e m)) = 0"
    using s1 by (simp add: work_left_pc)
  have "inv func objs (?e (Suc m))" by (rule exec_inv)
  from idle_done [OF this z assms(2,5)]
  have "is_done (feed_loop objs get_deps order (?e m))"
    using s1 by (simp add: is_done_def feed_queue_fields feed_loop_fields)
  then have "results (?e (Suc m)) \<noteq> []"
    using s1 by (simp add: feed_queue_def Let_def)
  moreover have "pc (?e (Suc m)) = AtGet" using s1 by simp
  ultimately obtain m' where "m' > Suc m" "pc (?e m') = Done"
    using idle_get_terminates [OF assms(1) _ _ z] by blast
  with m(1) show ?thesis by (intro exI [of _ m']) simp
qed

lemma idle_terminates:
  assumes "fair func get_deps objs sched" and "distinct objs"
    and "work_left (exec func get_deps objs sched n) = 0"
    and "\<forall>obj \<in> set objs. func obj \<noteq> Escapes"
  shows "\<exists>m\<ge>n. pc (exec func get_deps objs sched m) = Done"
proof (cases "pc (exec func get_deps objs sched n)")
  case AtFeed
  from idle_feed_terminates [OF assms(1,2) this assms(3,4)] show ?thesis
    by (meson less_imp_le)
next
  case AtGet
  let ?e = "exec func get_deps objs sched"
  from fair_next [OF assms(1) AtGet] obtain m where m: "m \<ge> n" "pc (?e m) = AtGet"
    "pc (?e (Suc m)) \<noteq> AtGet"
    by auto
  from coordinator_step [OF assms(1) m(2) _ m(3)]
  have ge: "?e (Suc m) = get_event (?e m)" by auto
  have z: "work_left (?e (Suc m)) = 0"
    using idle_stays_idle [OF assms(3), of "Suc m"] m(1) by simp
  from pc_get_event [of "?e m"] ge
  have "pc (?e (Suc m)) = AtFeed \<or> pc (?e (Suc m)) = Done" by simp
  then show ?thesis
  proof
    assume "pc (?e (Suc m)) = Done"
    with m(1) show ?thesis by (intro exI [of _ "Suc m"]) simp
  next
    assume "pc (?e (Suc m)) = AtFeed"
    from idle_feed_terminates [OF assms(1,2) this z assms(4)] obtain m'
      where "m' > Suc m" "pc (?e m') = Done" by blast
    with m(1) show ?thesis by (intro exI [of _ m']) simp
  qed
next
  case Done
  then show ?thesis by (intro exI [of _ n]) simp
next
  case Shutdown
  with fair_no_shutdown [OF assms(1), of n] show ?thesis by simp
qed

subsection \<open>One event for each object\<close>

lemma shutdown_absorbing:
  assumes "pc (exec func get_deps objs sched n) = Shutdown"
  shows "pc (exec func get_deps objs sched (n + k)) = Shutdown"
proof (induction k)
  case 0
  show ?case using assms by simp
next
  case (Suc k)
  let ?a = "exec func get_deps objs sched (n + k)"
  show ?case
  proof (cases "exec func get_deps objs sched (Suc (n + k)) = ?a")
    case True
    then show ?thesis using Suc by simp
  next
    case False
    then have "step func get_deps (sched (n + k)) ?a
        = Some (exec func get_deps objs sched (Suc (n + k)))"
      using exec_Suc [of func get_deps objs sched "n + k"] by simp
    then show ?thesis
      using Suc by (cases rule: step_cases) (simp_all add: producer_outcome)
  qed
qed

lemma reaching_done_fair:
  assumes "pc (exec func get_deps objs sched N) = Done"
  shows "fair func get_deps objs sched"
proof -
  let ?e = "exec func get_deps objs sched"
  have after: "?e n = ?e N" if "N \<le> n" for n
    using done_absorbing [OF assms, of "n - N"] that by simp
  have "threads (?e N) = []"
    using done_work_left [OF exec_inv assms] by (simp add: work_left_def)
  have a: "pc (?e n) \<noteq> Shutdown" for n
  proof
    assume sh: "pc (?e n) = Shutdown"
    show False
    proof (cases "N \<le> n")
      case True
      with after [of n] sh assms show ?thesis by simp
    next
      case False
      then have "pc (?e (n + (N - n))) = Shutdown"
        by (intro shutdown_absorbing [OF sh])
      with False assms show ?thesis by simp
    qed
  qed
  have b: "\<exists>m>n. pc (?e m) \<noteq> pc (?e n)" if "pc (?e n) = AtFeed \<or> pc (?e n) = AtGet" for n
  proof -
    have "\<not> N \<le> n" using after [of n] that assms by auto
    then show ?thesis using that assms by (intro exI [of _ N]) auto
  qed
  have c: "\<exists>m>n. obj \<notin> set (threads (?e m))" if "obj \<in> set (threads (?e n))" for n obj
  proof -
    have "\<not> N \<le> n" using after [of n] that \<open>threads (?e N) = []\<close> by auto
    then show ?thesis using \<open>threads (?e N) = []\<close> by (intro exI [of _ N]) auto
  qed
  show ?thesis
    unfolding fair_def using a b c by blast
qed

lemma never_done_dups:
  assumes "\<not> distinct objs" and "inv func objs s"
  shows "\<not> is_done s" and "pc s \<noteq> Done" and "STOP \<notin> set (results s)"
proof -
  show nd: "\<not> is_done s"
    using is_done_iff [of func objs s] inv_ok [OF assms(2)] inv_objects [OF assms(2)] assms(1)
    by blast
  show "pc s \<noteq> Done" using nd inv_done [OF assms(2)] by blast
  show "STOP \<notin> set (results s)" using nd inv_stop [OF assms(2)] by blast
qed

text \<open>
  A call of the work function whose exception escapes the producer leaves its object
  started for ever: the object never gets into \<open>finished\<close> or \<open>failed\<close>, no
  event is yielded for it, and the generator never reaches its end.
\<close>

lemma escaped_call_never_done:
  assumes "reachable func get_deps objs s" and "obj \<in> set (invoked s)"
    and "func obj = Escapes"
  shows "obj \<notin> finished s" and "obj \<notin> failed s" and "obj \<notin> ev_obj ` set (yielded s)"
    and "\<not> is_done s" and "pc s \<noteq> Done"
proof -
  have i: "inv func objs s" using assms(1) by (rule reachable_inv)
  from inv_ok [OF i, of obj] obtain ph
    where ph: "footprint s obj = expected func obj ph"
      and mem: "ph = Pending \<or> obj \<in> set objs"
    unfolding obj_ok_def by blast
  have c: "count_list (invoked s) obj \<noteq> 0"
    using assms(2) by (simp add: count_list_0_iff)
  have all: "obj \<notin> finished s \<and> obj \<notin> failed s \<and> evs_of obj (yielded s) = []
      \<and> obj \<in> set objs"
    using ph mem c assms(3)
    by (cases ph) (auto simp: footprint_def outcome_def)
  then show a: "obj \<notin> finished s" and b: "obj \<notin> failed s" by simp_all
  show "obj \<notin> ev_obj ` set (yielded s)"
  proof
    assume "obj \<in> ev_obj ` set (yielded s)"
    then obtain ev where "ev \<in> set (yielded s)" "ev_obj ev = obj" by auto
    then have "ev \<in> set (evs_of obj (yielded s))" by (simp add: evs_of_def)
    with all show False by simp
  qed
  show nd: "\<not> is_done s"
    using is_done_iff [of func objs s] inv_ok [OF i] inv_objects [OF i] all by blast
  show "pc s \<noteq> Done"
    using nd inv_done [OF i] by blast
qed

lemma invoked_step_mono:
  assumes "step func get_deps a s = Some s'"
  shows "set (invoked s) \<subseteq> set (invoked s')"
  using assms
proof (cases rule: step_cases)
  case (Feed order)
  then show ?thesis by (simp add: feed_queue_fields)
next
  case Get
  then show ?thesis
    by (auto simp: get_event_def split: list.splits item.splits prod.splits)
next
  case (Work obj)
  then show ?thesis by (auto simp: producer_outcome)
next
  case Interrupt
  then show ?thesis by simp
qed

text \<open>
  C3, as amended. When the list of objects has no repetition, the dependency relation
  restricted to the universe is acyclic, the schedule is fair (no interrupt, the
  consumer keeps asking, every call of the work function ends) and every call of the
  work function ends by returning or by raising an exception that the producer
  catches, the generator reaches its end after finitely many steps and the state no
  longer changes. The events yielded by then are one for each object of the list: as
  many as the list is long, no object twice, every object present. The event of an
  object is the tuple its producer thread made from the work function, or the upstream
  failure, in which case the work function was not called on it.
\<close>

theorem fair_run_one_event_per_object:
  assumes "distinct objs" and "acyclic (dep_rel get_deps objs)"
    and "fair func get_deps objs sched"
    and "\<forall>obj \<in> set objs. func obj \<noteq> Escapes"
  shows "\<exists>n. pc (exec func get_deps objs sched n) = Done
    \<and> (\<forall>m\<ge>n. exec func get_deps objs sched m = exec func get_deps objs sched n)
    \<and> distinct (map ev_obj (yielded (exec func get_deps objs sched n)))
    \<and> set (map ev_obj (yielded (exec func get_deps objs sched n))) = set objs
    \<and> length (yielded (exec func get_deps objs sched n)) = length objs
    \<and> (\<forall>ev \<in> set (yielded (exec func get_deps objs sched n)).
          ((\<exists>result. func (ev_obj ev) = Returns result \<and> ev = (ev_obj ev, Some result, None))
            \<or> (\<exists>e. func (ev_obj ev) = Raises e \<and> ev = (ev_obj ev, None, Some e)))
            \<and> ev_obj ev \<in> set (invoked (exec func get_deps objs sched n))
          \<or> ev = (ev_obj ev, None, Some UpstreamError)
            \<and> ev_obj ev \<notin> set (invoked (exec func get_deps objs sched n)))"
proof -
  let ?e = "exec func get_deps objs sched"
  from all_work_done [OF assms(3,2,4), of 0] obtain m where "work_left (?e m) = 0"
    by blast
  from idle_terminates [OF assms(3,1) this assms(4)] obtain n where n: "pc (?e n) = Done"
    by blast
  have i: "inv func objs (?e n)" by (rule exec_inv)
  have z: "work_left (?e n) = 0" using done_work_left [OF i n] .
  have d: "distinct (map ev_obj (yielded (?e n)))"
    using ok_histories(3) [of func objs "?e n"] inv_ok [OF i] by blast
  have st: "set (map ev_obj (yielded (?e n))) = set objs"
    using idle_yielded(1) [OF i z assms(4)] .
  have "length (map ev_obj (yielded (?e n))) = card (set (map ev_obj (yielded (?e n))))"
    using d by (simp only: distinct_card)
  also have "\<dots> = card (set objs)" using st by simp
  also have "\<dots> = length objs" using assms(1) by (rule distinct_card)
  finally have len: "length (yielded (?e n)) = length objs" by simp
  have stable: "\<forall>m\<ge>n. ?e m = ?e n"
  proof (intro allI impI)
    fix m assume "n \<le> m"
    then show "?e m = ?e n" using done_absorbing [OF n, of "m - n"] by simp
  qed
  have evs: "\<forall>ev \<in> set (yielded (?e n)).
      ((\<exists>result. func (ev_obj ev) = Returns result \<and> ev = (ev_obj ev, Some result, None))
        \<or> (\<exists>e. func (ev_obj ev) = Raises e \<and> ev = (ev_obj ev, None, Some e)))
        \<and> ev_obj ev \<in> set (invoked (?e n))
      \<or> ev = (ev_obj ev, None, Some UpstreamError) \<and> ev_obj ev \<notin> set (invoked (?e n))"
  proof
    fix ev assume "ev \<in> set (yielded (?e n))"
    with idle_yielded(3) [OF i z assms(4)]
    have "outcome func (ev_obj ev) = [ev] \<and> ev_obj ev \<in> set (invoked (?e n))
        \<or> ev = (ev_obj ev, None, Some UpstreamError) \<and> ev_obj ev \<notin> set (invoked (?e n))"
      by blast
    then show "((\<exists>result. func (ev_obj ev) = Returns result
            \<and> ev = (ev_obj ev, Some result, None))
        \<or> (\<exists>e. func (ev_obj ev) = Raises e \<and> ev = (ev_obj ev, None, Some e)))
        \<and> ev_obj ev \<in> set (invoked (?e n))
      \<or> ev = (ev_obj ev, None, Some UpstreamError) \<and> ev_obj ev \<notin> set (invoked (?e n))"
      by (cases "func (ev_obj ev)") (auto simp: outcome_def)
  qed
  show ?thesis
    using n stable d st len evs by blast
qed

lemma acyclic_chain2: "acyclic (dep_rel deps_chain [0, 1])"
proof -
  have "dep_rel deps_chain [0, 1] = {(1, 0)}"
    by (auto simp: dep_rel_def deps_chain_def split: if_splits)
  moreover have "acyclic ({} :: (nat \<times> nat) set)"
    by (simp add: acyclic_def)
  ultimately show ?thesis
    by (simp add: acyclic_insert)
qed

theorem fair_run_one_event_per_object_witness:
  "distinct [0, 1 :: nat] \<and> acyclic (dep_rel deps_chain [0, 1])
   \<and> work_ok 0 \<noteq> Escapes \<and> work_ok 1 \<noteq> Escapes
   \<and> fair work_ok deps_chain [0, 1]
        (sched_of [Feed [0, 1], Work 0, Get, Feed [1], Work 1, Get, Feed [], Get])
   \<and> (\<exists>n. pc (exec work_ok deps_chain [0, 1]
              (sched_of [Feed [0, 1], Work 0, Get, Feed [1], Work 1, Get, Feed [], Get]) n) = Done
         \<and> length (yielded (exec work_ok deps_chain [0, 1]
              (sched_of [Feed [0, 1], Work 0, Get, Feed [1], Work 1, Get, Feed [], Get]) n))
            = length [0, 1 :: nat])"
proof -
  define sched where
    "sched = sched_of [Feed [0, 1 :: nat], Work 0, Get, Feed [1], Work 1, Get, Feed [], Get]"
  have "pc (exec work_ok deps_chain [0, 1] sched 8) = Done"
    unfolding sched_def by code_simp
  then have f: "fair work_ok deps_chain [0, 1] sched"
    by (rule reaching_done_fair)
  have d: "distinct [0, 1 :: nat]" by simp
  have ne: "\<forall>obj \<in> set [0, 1 :: nat]. work_ok obj \<noteq> Escapes"
    by (simp add: work_ok_def)
  have ne': "work_ok 0 \<noteq> Escapes \<and> work_ok 1 \<noteq> Escapes"
    by (simp add: work_ok_def)
  from fair_run_one_event_per_object [OF d acyclic_chain2 f ne] d acyclic_chain2 f ne'
  show ?thesis
    unfolding sched_def by blast
qed

lemma dup_exec3:
  "exec work_ok no_deps [0, 0] dup_sched 3 =
     \<lparr>objects = [0, 0], started = {0}, finished = {0}, failed = {}, results = [], threads = [],
      pc = AtFeed, yielded = [(0, Some 10, None)], launched = [0], invoked = [0]\<rparr>"
  by code_simp

lemma dup_step_feed:
  "step work_ok no_deps (Feed [])
     \<lparr>objects = [0, 0], started = {0}, finished = {0}, failed = {}, results = [], threads = [],
      pc = AtFeed, yielded = [(0, Some 10, None)], launched = [0], invoked = [0]\<rparr>
   = Some \<lparr>objects = [0, 0], started = {0}, finished = {0}, failed = {}, results = [],
      threads = [], pc = AtGet, yielded = [(0, Some 10, None)], launched = [0], invoked = [0]\<rparr>"
  by code_simp

lemma dup_step_get:
  "step work_ok no_deps Get
     \<lparr>objects = [0, 0], started = {0}, finished = {0}, failed = {}, results = [], threads = [],
      pc = AtGet, yielded = [(0, Some 10, None)], launched = [0], invoked = [0]\<rparr>
   = Some \<lparr>objects = [0, 0 :: nat], started = {0}, finished = {0}, failed = {}, results = [],
      threads = [], pc = AtFeed, yielded = [(0, Some (10 :: nat), None :: string exn option)],
      launched = [0], invoked = [0]\<rparr>"
  by code_simp

lemma dup_exec_later:
  "exec work_ok no_deps [0, 0] dup_sched (3 + n) =
     \<lparr>objects = [0, 0], started = {0}, finished = {0}, failed = {}, results = [], threads = [],
      pc = (if even n then AtFeed else AtGet), yielded = [(0, Some 10, None)],
      launched = [0], invoked = [0]\<rparr>"
proof (induction n)
  case 0
  show ?case using dup_exec3 by simp
next
  case (Suc n)
  have s: "dup_sched (3 + n) = (if even n then Feed [] else Get)"
    by (simp add: dup_sched_def)
  have "exec work_ok no_deps [0, 0] dup_sched (Suc (3 + n)) =
      (case step work_ok no_deps (dup_sched (3 + n)) (exec work_ok no_deps [0, 0] dup_sched (3 + n))
       of None \<Rightarrow> exec work_ok no_deps [0, 0] dup_sched (3 + n) | Some s' \<Rightarrow> s')"
    by (simp only: exec.simps Let_def)
  then have "exec work_ok no_deps [0, 0] dup_sched (Suc (3 + n)) =
     \<lparr>objects = [0, 0], started = {0}, finished = {0}, failed = {}, results = [], threads = [],
      pc = (if even (Suc n) then AtFeed else AtGet), yielded = [(0, Some 10, None)],
      launched = [0], invoked = [0]\<rparr>"
    unfolding Suc s using dup_step_feed dup_step_get
    by (cases "even n") (simp_all del: step.simps)
  then show ?case by (simp only: add_Suc_right)
qed

lemma dup_pc:
  "pc (exec work_ok no_deps [0, 0] dup_sched 0) = AtFeed"
  "pc (exec work_ok no_deps [0, 0] dup_sched 1) = AtGet"
  "pc (exec work_ok no_deps [0, 0] dup_sched 2) = AtGet"
  "threads (exec work_ok no_deps [0, 0] dup_sched 0) = []"
  "threads (exec work_ok no_deps [0, 0] dup_sched 1) = [0]"
  "threads (exec work_ok no_deps [0, 0] dup_sched 2) = []"
  by code_simp+

lemma dup_small: "n < 3 \<Longrightarrow> n = 0 \<or> n = 1 \<or> n = (2 :: nat)"
  by arith

lemma dup_a: "pc (exec work_ok no_deps [0, 0] dup_sched n) \<noteq> Shutdown"
proof (cases "n < 3")
  case True
  from dup_small [OF this] show ?thesis
  proof (elim disjE)
    assume "n = 0" then show ?thesis by (simp only: dup_pc) simp
  next
    assume "n = 1" then show ?thesis by (simp only: dup_pc) simp
  next
    assume "n = 2" then show ?thesis by (simp only: dup_pc) simp
  qed
next
  case False
  have "pc (exec work_ok no_deps [0, 0] dup_sched (3 + (n - 3))) \<noteq> Shutdown"
    by (simp only: dup_exec_later) simp
  then show ?thesis using False by simp
qed


lemma dup_later_pc:
  "pc (exec work_ok no_deps [0, 0] dup_sched (3 + k)) = (if even k then AtFeed else AtGet)"
  "threads (exec work_ok no_deps [0, 0] dup_sched (3 + k)) = []"
  by (simp_all only: dup_exec_later) simp_all

lemma dup_b:
  "\<exists>m>n. pc (exec work_ok no_deps [0, 0] dup_sched m)
      \<noteq> pc (exec work_ok no_deps [0, 0] dup_sched n)"
proof (cases "n < 3")
  case True
  have p3: "pc (exec work_ok no_deps [0, 0] dup_sched 3) = AtFeed"
    using dup_later_pc(1) [of 0] by simp
  from dup_small [OF True] show ?thesis
  proof (elim disjE)
    assume n: "n = 0"
    have "(1 :: nat) > 0 \<and> pc (exec work_ok no_deps [0, 0] dup_sched 1)
        \<noteq> pc (exec work_ok no_deps [0, 0] dup_sched 0)"
      by (simp only: dup_pc) simp
    then show ?thesis unfolding n by blast
  next
    assume n: "n = 1"
    have "(3 :: nat) > 1 \<and> pc (exec work_ok no_deps [0, 0] dup_sched 3)
        \<noteq> pc (exec work_ok no_deps [0, 0] dup_sched 1)"
      by (simp only: dup_pc p3) simp
    then show ?thesis unfolding n by blast
  next
    assume n: "n = 2"
    have "(3 :: nat) > 2 \<and> pc (exec work_ok no_deps [0, 0] dup_sched 3)
        \<noteq> pc (exec work_ok no_deps [0, 0] dup_sched 2)"
      by (simp only: dup_pc p3) simp
    then show ?thesis unfolding n by blast
  qed
next
  case False
  define k where "k = n - 3"
  have n: "n = 3 + k" using False by (simp add: k_def)
  have "pc (exec work_ok no_deps [0, 0] dup_sched (3 + Suc k))
      \<noteq> pc (exec work_ok no_deps [0, 0] dup_sched (3 + k))"
    by (simp only: dup_later_pc) simp
  moreover have "3 + Suc k > 3 + k" by simp
  ultimately show ?thesis unfolding n by blast
qed

lemma dup_c:
  "\<exists>m>n. obj \<notin> set (threads (exec work_ok no_deps [0, 0] dup_sched m))"
proof -
  have "obj \<notin> set (threads (exec work_ok no_deps [0, 0] dup_sched (3 + n)))"
    by (simp only: dup_later_pc) simp
  moreover have "3 + n > n" by simp
  ultimately show ?thesis by blast
qed

lemma dup_fair: "fair work_ok no_deps [0, 0] dup_sched"
  unfolding fair_def using dup_a dup_b dup_c by blast

lemma acyclic_no_deps: "acyclic (dep_rel no_deps objs)"
proof -
  have "dep_rel no_deps objs = {}"
    by (simp add: dep_rel_def no_deps_def)
  then show ?thesis by (simp add: acyclic_def)
qed

theorem fair_run_duplicates_counterexample:
  "acyclic (dep_rel no_deps [0, 0 :: nat]) \<and> fair work_ok no_deps [0, 0] dup_sched
   \<and> (\<forall>n. pc (exec work_ok no_deps [0, 0] dup_sched n) \<noteq> Done)"
proof -
  have "pc (exec work_ok no_deps [0, 0] dup_sched n) \<noteq> Done" for n
    by (rule never_done_dups(2) [OF _ exec_inv]) simp
  then show ?thesis
    using acyclic_no_deps dup_fair by blast
qed

subsection \<open>A list with duplicates\<close>

lemma card_terminal_le:
  assumes "inv func objs s"
  shows "card (finished s) + card (failed s) \<le> card (set objs)"
proof -
  note st = ok_sets [of func objs s, OF inv_ok [OF assms]]
  have fin: "finite (finished s)" "finite (failed s)"
    using st(1,2) finite_subset by blast+
  have "card (finished s) + card (failed s) = card (finished s \<union> failed s)"
    using fin st(4) by (simp add: card_Un_disjoint)
  also have "\<dots> \<le> card (set objs)"
    using st(1,2) by (intro card_mono) auto
  finally show ?thesis .
qed

lemma card_dups: "\<not> distinct objs \<Longrightarrow> card (set objs) < length objs"
  using card_length [of objs] card_distinct [of objs] by fastforce

text \<open>
  C9. When the list of objects names an object more than once: in every reachable
  state \<open>is_done()\<close> is false, since the sizes of \<open>finished\<close> and \<open>failed\<close>
  add up to at most the number of distinct objects, which is below the length of the
  list; \<open>STOP\<close> is never put and the generator never reaches its end. Still at most
  one thread is started and at most one event yielded for each object, and in a fair
  run over acyclic dependencies, with a work function whose calls all end by returning
  or by raising an exception that the producer catches, every distinct object gets its
  event.
\<close>

theorem duplicates_never_done:
  assumes "\<not> distinct objs"
  shows "(\<forall>s. reachable func get_deps objs s \<longrightarrow>
            \<not> is_done s \<and> pc s \<noteq> Done \<and> STOP \<notin> set (results s)
            \<and> card (finished s) + card (failed s) \<le> card (set objs)
            \<and> card (set objs) < length objs
            \<and> distinct (map ev_obj (yielded s)) \<and> distinct (launched s))
    \<and> (\<forall>sched. fair func get_deps objs sched \<and> acyclic (dep_rel get_deps objs)
          \<and> (\<forall>obj \<in> set objs. func obj \<noteq> Escapes) \<longrightarrow>
          (\<exists>n. set (map ev_obj (yielded (exec func get_deps objs sched n))) = set objs
             \<and> distinct (map ev_obj (yielded (exec func get_deps objs sched n)))
             \<and> (\<forall>m. pc (exec func get_deps objs sched m) \<noteq> Done)))"
proof (intro conjI allI impI)
  fix s assume "reachable func get_deps objs s"
  then have i: "inv func objs s" by (rule reachable_inv)
  show "\<not> is_done s" "pc s \<noteq> Done" "STOP \<notin> set (results s)"
    using never_done_dups [OF assms i] by simp_all
  show "card (finished s) + card (failed s) \<le> card (set objs)"
    using i by (rule card_terminal_le)
  show "card (set objs) < length objs"
    using assms by (rule card_dups)
  show "distinct (map ev_obj (yielded s))" "distinct (launched s)"
    using ok_histories(1,3) [of func objs s] inv_ok [OF i] by blast+
next
  fix sched
  assume h: "fair func get_deps objs sched \<and> acyclic (dep_rel get_deps objs)
      \<and> (\<forall>obj \<in> set objs. func obj \<noteq> Escapes)"
  then have ne: "\<forall>obj \<in> set objs. func obj \<noteq> Escapes" by simp
  let ?e = "exec func get_deps objs sched"
  from all_work_done [of func get_deps objs sched 0] h obtain n
    where z: "work_left (?e n) = 0" by blast
  have i: "inv func objs (?e n)" by (rule exec_inv)
  have "set (map ev_obj (yielded (?e n))) = set objs"
    using idle_yielded(1) [OF i z ne] .
  moreover have "distinct (map ev_obj (yielded (?e n)))"
    using ok_histories(3) [of func objs "?e n"] inv_ok [OF i] by blast
  moreover have "\<forall>m. pc (?e m) \<noteq> Done"
    using never_done_dups(2) [OF assms exec_inv] by blast
  ultimately show "\<exists>n. set (map ev_obj (yielded (?e n))) = set objs
      \<and> distinct (map ev_obj (yielded (?e n))) \<and> (\<forall>m. pc (?e m) \<noteq> Done)"
    by blast
qed

theorem duplicates_never_done_witness:
  "\<not> distinct [0, 0 :: nat]
   \<and> finished (run work_ok no_deps [Feed [0], Work 0, Get, Feed [], Get] (init [0, 0])) = {0}
   \<and> \<not> is_done (run work_ok no_deps [Feed [0], Work 0, Get, Feed [], Get] (init [0, 0]))
   \<and> pc (run work_ok no_deps [Feed [0], Work 0, Get, Feed [], Get] (init [0, 0])) \<noteq> Done
   \<and> fair work_ok no_deps [0, 0] dup_sched
   \<and> (\<exists>n. set (map ev_obj (yielded (exec work_ok no_deps [0, 0] dup_sched n))) = set [0, 0])"
proof -
  define s :: "(nat, nat, string) sys"
    where "s = run work_ok no_deps [Feed [0], Work 0, Get, Feed [], Get] (init [0, 0])"
  have nd: "\<not> distinct [0, 0 :: nat]" by simp
  have r: "reachable work_ok no_deps [0, 0] s"
    unfolding s_def by (rule run_reachable [OF reach_init])
  have f: "finished s = {0}"
    unfolding s_def by code_simp
  note T = duplicates_never_done [OF nd, of work_ok no_deps]
  from T r have a: "\<not> is_done s \<and> pc s \<noteq> Done" by blast
  have ne: "\<forall>obj \<in> set [0, 0 :: nat]. work_ok obj \<noteq> Escapes"
    by (simp add: work_ok_def)
  from T dup_fair acyclic_no_deps [of "[0, 0 :: nat]"] ne
  have "\<exists>n. set (map ev_obj (yielded (exec work_ok no_deps [0, 0] dup_sched n))) = set [0, 0]"
    by blast
  with nd f a dup_fair show ?thesis
    unfolding s_def by blast
qed

subsection \<open>Dependency cycles\<close>

lemma dep_relD:
  "(p, d) \<in> dep_rel get_deps objs \<Longrightarrow> p \<in> set objs \<and> d \<in> set (get_deps p) \<and> d \<in> set objs"
  by (simp add: dep_rel_def)

lemma cycle_reach_dep:
  assumes "p \<in> cycle_reach get_deps objs"
  shows "\<exists>d. (p, d) \<in> dep_rel get_deps objs \<and> d \<in> cycle_reach get_deps objs"
proof -
  from assms obtain q where q: "(p, q) \<in> (dep_rel get_deps objs)\<^sup>*"
    "(q, q) \<in> (dep_rel get_deps objs)\<^sup>+"
    unfolding cycle_reach_def by blast
  then have "(p, q) \<in> (dep_rel get_deps objs)\<^sup>+"
    by (rule rtrancl_trancl_trancl)
  then obtain d where d: "(p, d) \<in> dep_rel get_deps objs" "(d, q) \<in> (dep_rel get_deps objs)\<^sup>*"
    by (blast dest: tranclD)
  with q(2) have "d \<in> cycle_reach get_deps objs"
    unfolding cycle_reach_def by blast
  with d(1) show ?thesis by blast
qed

lemma on_cycle_in_reach:
  "(c, c) \<in> (dep_rel get_deps objs)\<^sup>+ \<Longrightarrow> c \<in> cycle_reach get_deps objs"
  unfolding cycle_reach_def by blast

lemma invoked_started:
  assumes "obj_ok func objs s a" and "a \<in> set (invoked s)"
  shows "a \<in> started s"
proof -
  from assms(1) obtain ph where ph: "footprint s a = expected func a ph"
    unfolding obj_ok_def by blast
  have "count_list (invoked s) a \<noteq> 0"
    using assms(2) by (simp add: count_list_0_iff)
  with ph show ?thesis
    by (cases ph) (auto simp: footprint_def)
qed

lemma cycle_never_started:
  assumes "reachable func get_deps objs s"
  shows "started s \<inter> cycle_reach get_deps objs = {}"
  using assms
proof (induction rule: reachable.induct)
  case reach_init
  show ?case by (simp add: init_def)
next
  case (reach_step s a s')
  have i: "inv func objs s"
    using reach_step.hyps(1) by (rule reachable_inv)
  from reach_step.hyps(2) show ?case
  proof (cases rule: step_cases)
    case (Feed order)
    have obs: "objects s = objs" using i by (rule inv_objects)
    have "x \<notin> cycle_reach get_deps objs" if x: "x \<in> started s'" for x
    proof
      assume w: "x \<in> cycle_reach get_deps objs"
      from x Feed obs have "x \<in> started (feed_loop objs get_deps order s)"
        by (simp add: feed_queue_fields)
      from feed_loop_started [OF this] w reach_step.IH
      have all: "list_all (\<lambda>dep. dep \<notin> set objs \<or> dep \<in> finished s) (get_deps x)"
        by blast
      from cycle_reach_dep [OF w] obtain d where d: "(x, d) \<in> dep_rel get_deps objs"
        "d \<in> cycle_reach get_deps objs"
        by blast
      from dep_relD [OF d(1)] all have "d \<in> finished s"
        by (auto simp: list_all_iff)
      then have "d \<in> started s"
        using ok_sets(5) [of func objs s] inv_ok [OF i] by blast
      with d(2) reach_step.IH show False by blast
    qed
    then show ?thesis by blast
  next
    case Get
    then show ?thesis
      using reach_step.IH get_event_Nil [of s]
      by (auto simp: get_event_def split: list.splits item.splits prod.splits if_splits)
  next
    case (Work obj)
    then show ?thesis using reach_step.IH by (simp add: producer_outcome)
  next
    case Interrupt
    then show ?thesis using reach_step.IH by simp
  qed
qed

lemma feed_loop_failed_avoid:
  assumes "failed s \<inter> U = {}" and "failed s \<subseteq> set objs" and "set order \<subseteq> set objs"
    and "\<And>a d. a \<in> U \<Longrightarrow> (a, d) \<in> dep_rel get_deps objs \<Longrightarrow> d \<in> U"
  shows "failed (feed_loop objs get_deps order s) \<inter> U = {}"
  using assms(1,2,3)
proof (induction order arbitrary: s)
  case Nil
  then show ?case by simp
next
  case (Cons obj rest)
  let ?s1 = "feed_obj objs get_deps obj s"
  have o: "obj \<in> set objs" using Cons.prems(3) by simp
  have "failed ?s1 \<inter> U = {} \<and> failed ?s1 \<subseteq> set objs"
  proof (cases "list_ex (\<lambda>dep. dep \<in> failed s) (get_deps obj)")
    case True
    then obtain d where d: "d \<in> set (get_deps obj)" "d \<in> failed s"
      by (auto simp: list_ex_iff)
    then have "(obj, d) \<in> dep_rel get_deps objs"
      using o Cons.prems(2) by (auto simp: dep_rel_def)
    then have "obj \<notin> U"
      using assms(4) [of obj d] d(2) Cons.prems(1) by blast
    then show ?thesis
      using True Cons.prems(1,2) o by (simp add: feed_obj_def Let_def)
  next
    case False
    then have "failed ?s1 = failed s"
      by (simp add: feed_obj_def Let_def)
    then show ?thesis using Cons.prems(1,2) by simp
  qed
  then show ?case
    using Cons.IH [of ?s1] Cons.prems(3) by simp
qed

lemma cycle_never_failed:
  assumes "reachable func get_deps objs s"
    and "\<forall>d. (c, d) \<in> (dep_rel get_deps objs)\<^sup>+ \<and> d \<notin> cycle_reach get_deps objs
          \<longrightarrow> (\<forall>e. func d \<noteq> Raises e)"
  shows "failed s \<inter> {d. (c, d) \<in> (dep_rel get_deps objs)\<^sup>+} = {}"
  using assms(1)
proof (induction rule: reachable.induct)
  case reach_init
  show ?case by (simp add: init_def)
next
  case (reach_step s a s')
  let ?U = "{d. (c, d) \<in> (dep_rel get_deps objs)\<^sup>+}"
  have i: "inv func objs s"
    using reach_step.hyps(1) by (rule reachable_inv)
  have obs: "objects s = objs" using i by (rule inv_objects)
  from reach_step.hyps(2) show ?case
  proof (cases rule: step_cases)
    case (Feed order)
    have "failed s \<subseteq> set objs"
      using ok_sets(2) [of func objs s] inv_ok [OF i] by blast
    moreover have "set order \<subseteq> set objs"
      using Feed obs by (auto simp: pending_def)
    moreover have "d \<in> ?U" if "a \<in> ?U" "(a, d) \<in> dep_rel get_deps objs" for a d
      using that by (auto intro: trancl_into_trancl)
    ultimately have "failed (feed_loop objs get_deps order s) \<inter> ?U = {}"
      using feed_loop_failed_avoid [of s ?U objs order get_deps] reach_step.IH by blast
    then show ?thesis using Feed obs by (simp add: feed_queue_fields)
  next
    case Get
    show ?thesis
    proof (cases "results s")
      case Nil
      then show ?thesis using Get reach_step.IH by (simp add: get_event_Nil)
    next
      case (Cons x q)
      show ?thesis
      proof (cases x)
        case STOP
        with Cons Get reach_step.IH show ?thesis by (simp add: get_event_STOP)
      next
        case (Event ev)
        obtain obj r e where ev: "ev = (obj, r, e)" by (cases ev) auto
        have res: "results s = Event (obj, r, e) # q"
          using Cons Event ev by simp
        have sub: "failed s' \<subseteq> insert obj (failed s)"
          and eq: "e = None \<Longrightarrow> failed s' = failed s"
          using Get res by (auto simp: get_event_def)
        show ?thesis
        proof (cases "e = None \<or> obj \<notin> ?U")
          case True
          then show ?thesis using sub eq reach_step.IH by auto
        next
          case False
          then have e: "e \<noteq> None" and u: "(c, obj) \<in> (dep_rel get_deps objs)\<^sup>+"
            by simp_all
          from footprint_head [OF inv_ok [OF i] res]
          have "obj \<in> started s \<and> outcome func obj = [(obj, r, e)] \<or> obj \<in> failed s"
            by (auto simp: footprint_def)
          then show ?thesis
          proof
            assume a: "obj \<in> started s \<and> outcome func obj = [(obj, r, e)]"
            then have "obj \<notin> cycle_reach get_deps objs"
              using cycle_never_started [OF reach_step.hyps(1)] by blast
            with assms(2) u have "\<forall>x. func obj \<noteq> Raises x" by blast
            with a e show ?thesis
              by (cases "func obj") (auto simp: outcome_def)
          next
            assume "obj \<in> failed s"
            with u reach_step.IH show ?thesis by blast
          qed
        qed
      qed
    qed
  next
    case (Work obj)
    then show ?thesis using reach_step.IH by (simp add: producer_outcome)
  next
    case Interrupt
    then show ?thesis using reach_step.IH by simp
  qed
qed

text \<open>
  C8, as amended. Let \<open>c\<close> be an object on a cycle of the dependency relation
  restricted to the universe, and let the work function raise no exception that its
  producer puts on the queue on any object that \<open>c\<close> depends on, directly or not,
  and that neither is on a cycle nor depends on one.
  Then in every reachable state \<open>c\<close> is still pending, \<open>is_done()\<close> is false,
  \<open>STOP\<close> is not on the queue and the generator has not reached its end; and no
  object that is on a cycle or depends on one has been started, has finished, or has
  had the work function called on it.
\<close>

theorem cycle_stalls_without_failures:
  assumes "reachable func get_deps objs s"
    and "(c, c) \<in> (dep_rel get_deps objs)\<^sup>+"
    and "\<forall>d. (c, d) \<in> (dep_rel get_deps objs)\<^sup>+ \<and> d \<notin> cycle_reach get_deps objs
          \<longrightarrow> (\<forall>e. func d \<noteq> Raises e)"
  shows "c \<in> pending s \<and> \<not> is_done s \<and> pc s \<noteq> Done \<and> STOP \<notin> set (results s)
    \<and> (\<forall>p \<in> cycle_reach get_deps objs.
          p \<notin> started s \<and> p \<notin> finished s \<and> p \<notin> set (launched s) \<and> p \<notin> set (invoked s))"
proof -
  have i: "inv func objs s"
    using assms(1) by (rule reachable_inv)
  note ns = cycle_never_started [OF assms(1)]
  note nf = cycle_never_failed [OF assms(1,3)]
  have fs: "finished s \<subseteq> started s"
    using ok_sets(5) [of func objs s] inv_ok [OF i] by blast
  have ls: "set (launched s) = started s"
    using ok_histories(2) [of func objs s] inv_ok [OF i] by blast
  have stuck: "p \<notin> started s \<and> p \<notin> finished s \<and> p \<notin> set (launched s) \<and> p \<notin> set (invoked s)"
    if "p \<in> cycle_reach get_deps objs" for p
    using that ns fs ls invoked_started [OF inv_ok [OF i], of p] by blast
  have cw: "c \<in> cycle_reach get_deps objs"
    using assms(2) by (rule on_cycle_in_reach)
  have co: "c \<in> set objs"
    using assms(2) dep_relD [of c _ get_deps objs] by (blast dest: tranclD)
  have "c \<notin> failed s"
    using nf assms(2) by blast
  with stuck [OF cw] co inv_objects [OF i] have p: "c \<in> pending s"
    by (simp add: pending_def)
  from inv_not_done_pending [OF i p] p stuck show ?thesis
    by blast
qed

lemma cycle_1_2: "(1, 1) \<in> (dep_rel deps_cycle [0, 1, 2])\<^sup>+"
proof -
  have "(1, 2) \<in> dep_rel deps_cycle [0, 1, 2]" and "(2, 1) \<in> dep_rel deps_cycle [0, 1, 2]"
    by (simp_all add: dep_rel_def deps_cycle_def)
  then show ?thesis
    by (meson trancl.r_into_trancl trancl_trans)
qed

theorem cycle_stalls_without_failures_witness:
  "(1, 1) \<in> (dep_rel deps_cycle [0, 1, 2])\<^sup>+
   \<and> finished (run work_ok deps_cycle [Feed [0, 1, 2], Work 0, Get, Feed [2, 1], Get]
        (init [0, 1, 2])) = {0}
   \<and> 1 \<in> pending (run work_ok deps_cycle [Feed [0, 1, 2], Work 0, Get, Feed [2, 1], Get]
        (init [0, 1, 2]))
   \<and> pc (run work_ok deps_cycle [Feed [0, 1, 2], Work 0, Get, Feed [2, 1], Get]
        (init [0, 1, 2])) \<noteq> Done"
proof -
  define s :: "(nat, nat, string) sys"
    where "s = run work_ok deps_cycle [Feed [0, 1, 2], Work 0, Get, Feed [2, 1], Get]
      (init [0, 1, 2])"
  have r: "reachable work_ok deps_cycle [0, 1, 2] s"
    unfolding s_def by (rule run_reachable [OF reach_init])
  have ok: "\<forall>d. (1, d) \<in> (dep_rel deps_cycle [0, 1, 2])\<^sup>+
      \<and> d \<notin> cycle_reach deps_cycle [0, 1, 2] \<longrightarrow> (\<forall>e. work_ok d \<noteq> Raises e)"
    by (simp add: work_ok_def)
  have f: "finished s = {0}"
    unfolding s_def by code_simp
  from cycle_stalls_without_failures [OF r cycle_1_2 ok] f cycle_1_2 show ?thesis
    unfolding s_def by blast
qed

theorem cycle_with_failed_dependency_counterexample:
  "(1, 1) \<in> (dep_rel deps_cycle [0, 1, 2])\<^sup>+
   \<and> pc (run work_boom deps_cycle
        [Feed [0, 1, 2], Work 0, Get, Feed [1, 2], Get, Feed [], Get, Feed [], Get]
        (init [0, 1, 2])) = Done
   \<and> map ev_obj (yielded (run work_boom deps_cycle
        [Feed [0, 1, 2], Work 0, Get, Feed [1, 2], Get, Feed [], Get, Feed [], Get]
        (init [0, 1, 2]))) = [0, 1, 2]"
proof -
  have "pc (run work_boom deps_cycle
        [Feed [0, 1, 2], Work 0, Get, Feed [1, 2], Get, Feed [], Get, Feed [], Get]
        (init [0, 1, 2])) = Done"
    by code_simp
  moreover have "map ev_obj (yielded (run work_boom deps_cycle
        [Feed [0, 1, 2], Work 0, Get, Feed [1, 2], Get, Feed [], Get, Feed [], Get]
        (init [0, 1, 2]))) = [0, 1, 2]"
    by code_simp
  ultimately show ?thesis
    using cycle_1_2 by blast
qed

subsection \<open>The run aggregator\<close>

lemma initialize_fields:
  "msg (initialize w n) = msg w"
  "lines (initialize w n) = (if msg w = None then lines w else lines w @ [n])"
  by (simp_all add: initialize_def split: option.splits)

lemma foldl_initialize:
  "msg (foldl initialize w names) = msg w"
  "lines (foldl initialize w names) = (if msg w = None then lines w else lines w @ names)"
  by (induction names arbitrary: w) (simp_all add: initialize_fields)

lemma writer_write_fields:
  assumes "writer_write w n st = Inr w'"
  shows "msg w' = msg w" and "lines w' = lines w"
  using assms
  by (auto simp: writer_write_def Let_def split: option.splits sum.splits)

lemma writer_write_ok:
  assumes "msg w = None \<or> n \<in> set (lines w)"
  shows "\<exists>w'. writer_write w n st = Inr w'"
proof (cases "msg w")
  case None
  then show ?thesis by (simp add: writer_write_def)
next
  case (Some m)
  with assms have "n \<in> set (lines w)" by simp
  then show ?thesis
    using Some by (simp add: writer_write_def index_of_first_index Let_def)
qed

lemma handle_event_fields:
  assumes "handle_event get_name ev l = Inr l'"
  shows "msg (out l') = msg (out l)" and "lines (out l') = lines (out l)"
proof -
  obtain obj r e where ev: "ev = (obj, r, e)" by (cases ev) auto
  have "msg (out l') = msg (out l) \<and> lines (out l') = lines (out l)"
  proof (cases e)
    case None
    with assms ev show ?thesis
      by (auto split: sum.splits dest: writer_write_fields)
  next
    case (Some x)
    with assms ev show ?thesis
      by (cases x) (auto split: sum.splits dest: writer_write_fields)
  qed
  then show "msg (out l') = msg (out l)" and "lines (out l') = lines (out l)"
    by simp_all
qed

lemma handle_event_ok:
  assumes "msg (out l) = None \<or> get_name (ev_obj ev) \<in> set (lines (out l))"
  shows "\<exists>l'. handle_event get_name ev l = Inr l'"
proof -
  obtain obj r e where ev: "ev = (obj, r, e)" by (cases ev) auto
  from assms ev have reg: "msg (out l) = None \<or> get_name obj \<in> set (lines (out l))"
    by simp
  show ?thesis
  proof (cases e)
    case None
    from writer_write_ok [OF reg, of "''done''"] obtain w
      where "writer_write (out l) (get_name obj) ''done'' = Inr w" by blast
    with None ev show ?thesis by simp
  next
    case (Some x)
    from writer_write_ok [OF reg, of "''error''"] obtain w
      where "writer_write (out l) (get_name obj) ''error'' = Inr w" by blast
    with Some ev show ?thesis by (cases x) simp_all
  qed
qed

lemma drain_ok:
  assumes "msg (out l) = None \<or> (\<forall>ev \<in> set evs. get_name (ev_obj ev) \<in> set (lines (out l)))"
  shows "\<exists>l'. drain get_name evs l = Inr l'"
  using assms
proof (induction evs arbitrary: l)
  case Nil
  show ?case by simp
next
  case (Cons ev evs)
  have "msg (out l) = None \<or> get_name (ev_obj ev) \<in> set (lines (out l))"
    using Cons.prems by auto
  from handle_event_ok [where get_name = get_name, OF this] obtain l1 where l1: "handle_event get_name ev l = Inr l1"
    by blast
  have "msg (out l1) = None \<or> (\<forall>ev \<in> set evs. get_name (ev_obj ev) \<in> set (lines (out l1)))"
    using Cons.prems handle_event_fields [OF l1] by auto
  from Cons.IH [OF this] l1 show ?case by simp
qed

lemma drain_append:
  "drain get_name (xs @ ys) l =
     (case drain get_name xs l of Inl e \<Rightarrow> Inl e | Inr l' \<Rightarrow> drain get_name ys l')"
  by (induction xs arbitrary: l) (auto split: sum.splits)





lemma parallel_execute_drained:
  assumes "drain get_name events (before_loop objs get_name m) = Inr l"
  shows "parallel_execute objs get_name m str_of truthy events =
    (stream (out l) @ map (error_line str_of) (errors l),
     case error_to_reraise l of
       None \<Rightarrow> Returned (results_list l) (errors l)
     | Some e \<Rightarrow> if truthy e then Raised e else Returned (results_list l) (errors l))"
  using assms by (simp add: parallel_execute_def)

lemma before_loop_fields:
  "msg (out (before_loop objs get_name m)) = m"
  "lines (out (before_loop objs get_name m)) = (if m = None then [] else map get_name objs)"
  "errors (before_loop objs get_name m) = []"
  "results_list (before_loop objs get_name m) = []"
  "error_to_reraise (before_loop objs get_name m) = None"
  by (simp_all add: before_loop_def foldl_initialize ParallelStreamWriter_def)

lemma registered_events_drain:
  assumes "\<forall>ev \<in> set events. ev_obj ev \<in> set objs"
  shows "\<exists>l. drain get_name events (before_loop objs get_name m) = Inr l"
proof (rule drain_ok)
  show "msg (out (before_loop objs get_name m)) = None
      \<or> (\<forall>ev \<in> set events. get_name (ev_obj ev)
            \<in> set (lines (out (before_loop objs get_name m))))"
    using assms by (cases m) (auto simp: before_loop_fields)
qed

subsection \<open>The aggregator over the events of a run\<close>

lemma yielded_registered:
  assumes "reachable func get_deps objs s" and "ev \<in> set (yielded s)"
  shows "ev_obj ev \<in> set objs"
proof -
  have i: "inv func objs s" using assms(1) by (rule reachable_inv)
  from inv_ok [OF i, of "ev_obj ev"] obtain ph
    where ph: "footprint s (ev_obj ev) = expected func (ev_obj ev) ph"
      and mem: "ph = Pending \<or> ev_obj ev \<in> set objs"
    unfolding obj_ok_def by blast
  have "ev \<in> set (evs_of (ev_obj ev) (yielded s))"
    using assms(2) by (simp add: evs_of_def)
  then have "evs_of (ev_obj ev) (yielded s) \<noteq> []" by auto
  with ph mem show ?thesis
    by (cases ph) (auto simp: footprint_def)
qed


lemma yielded_event_of_object:
  assumes "reachable func get_deps objs s"
    and "ev \<in> set (yielded s)" and "ev' \<in> set (yielded s)" and "ev_obj ev = ev_obj ev'"
  shows "ev = ev'"
proof -
  have i: "inv func objs s" using assms(1) by (rule reachable_inv)
  have "distinct (map ev_obj (yielded s))"
    using ok_histories(3) [of func objs s] inv_ok [OF i] by blast
  then have "inj_on ev_obj (set (yielded s))"
    by (simp add: distinct_map)
  with assms(2,3,4) show ?thesis
    by (auto dest: inj_onD)
qed

lemma set_update_subset: "set (AList.update k v al) \<subseteq> insert (k, v) (set al)"
  by (induction al) auto

lemma update_memD:
  "(n, v) \<in> set (AList.update k v' al) \<Longrightarrow> n = k \<and> v = v' \<or> (n, v) \<in> set al"
  using set_update_subset [of k v' al] by blast

lemma drain_fields:
  assumes "drain get_name evs l = Inr l'"
  shows "msg (out l') = msg (out l)" and "lines (out l') = lines (out l)"
proof -
  have "msg (out l') = msg (out l) \<and> lines (out l') = lines (out l)"
    using assms
  proof (induction evs arbitrary: l)
    case Nil
    then show ?case by simp
  next
    case (Cons ev evs)
    from Cons.prems obtain l1 where l1: "handle_event get_name ev l = Inr l1"
      and rest: "drain get_name evs l1 = Inr l'"
      by (auto split: sum.splits)
    from Cons.IH [OF rest] handle_event_fields [OF l1] show ?case by simp
  qed
  then show "msg (out l') = msg (out l)" and "lines (out l') = lines (out l)"
    by simp_all
qed

lemma writer_write_stream:
  assumes "msg w = Some t" and "n \<in> set (lines w)"
  shows "writer_write w n st =
    Inr (w\<lparr>stream := stream w @
      [SWrite ([ESC] @ ''['' @ show_nat (length (lines w) - first_index (lines w) n) @ ''A''),
       SWrite ([ESC] @ ''[2K'' @ [CR]),
       SWrite (t @ '' '' @ n @ '' ... '' @ st @ [CR]),
       SWrite ([ESC] @ ''['' @ show_nat (length (lines w) - first_index (lines w) n) @ ''B''),
       SFlush]\<rparr>)"
  using assms by (simp add: writer_write_def index_of_first_index Let_def)

lemma writer_write_extends:
  assumes "writer_write w n st = Inr w'"
  shows "\<exists>rest. stream w' = stream w @ rest"
  using assms by (auto simp: writer_write_def Let_def split: option.splits sum.splits)

lemma handle_event_extends:
  assumes "handle_event get_name ev l = Inr l'"
  shows "\<exists>rest. stream (out l') = stream (out l) @ rest"
proof -
  obtain obj r e where ev: "ev = (obj, r, e)" by (cases ev) auto
  show ?thesis
  proof (cases e)
    case None
    with assms ev show ?thesis
      by (auto split: sum.splits dest: writer_write_extends)
  next
    case (Some x)
    with assms ev show ?thesis
      by (cases x) (auto split: sum.splits dest: writer_write_extends)
  qed
qed

lemma drain_extends:
  assumes "drain get_name evs l = Inr l'"
  shows "\<exists>rest. stream (out l') = stream (out l) @ rest"
  using assms
proof (induction evs arbitrary: l)
  case Nil
  then show ?case by simp
next
  case (Cons ev evs)
  from Cons.prems obtain l1 where l1: "handle_event get_name ev l = Inr l1"
    and rest: "drain get_name evs l1 = Inr l'"
    by (auto split: sum.splits)
  from Cons.IH [OF rest] handle_event_extends [OF l1] show ?case by auto
qed

lemma run_drain_split:
  assumes "reachable func get_deps objs s" and "yielded s = pre @ ev # post"
  shows "\<exists>l1 l2 l'. drain get_name pre (before_loop objs get_name m) = Inr l1
    \<and> handle_event get_name ev l1 = Inr l2
    \<and> drain get_name post l2 = Inr l'
    \<and> drain get_name (yielded s) (before_loop objs get_name m) = Inr l'"
proof -
  have "\<forall>ev \<in> set (yielded s). ev_obj ev \<in> set objs"
    using yielded_registered [OF assms(1)] by blast
  from registered_events_drain [OF this, of get_name m] obtain l'
    where d: "drain get_name (yielded s) (before_loop objs get_name m) = Inr l'"
    by blast
  then have "drain get_name (pre @ ev # post) (before_loop objs get_name m) = Inr l'"
    using assms(2) by simp
  then obtain l1 l2 where "drain get_name pre (before_loop objs get_name m) = Inr l1"
    and "handle_event get_name ev l1 = Inr l2" and "drain get_name post l2 = Inr l'"
    by (auto simp: drain_append split: sum.splits)
  with d show ?thesis by blast
qed

lemma handle_event_entries:
  assumes "handle_event get_name (a, r, e) l = Inr l'" and "(n, v) \<in> set (errors l')"
  shows "(n, v) \<in> set (errors l)
    \<or> n = get_name a
      \<and> ((\<exists>t. e = Some (APIError t) \<and> v = ErrText t)
         \<or> (\<exists>t. e = Some (OperationFailedError t) \<and> v = ErrText t)
         \<or> (\<exists>x. e = Some (OtherError x) \<and> v = ErrExc (OtherError x)))"
proof (cases e)
  case None
  with assms show ?thesis by (auto split: sum.splits)
next
  case (Some x)
  with assms show ?thesis
    by (cases x) (auto split: sum.splits dest!: update_memD)
qed

lemma drain_entries:
  assumes "drain get_name evs l = Inr l'" and "(n, v) \<in> set (errors l')"
  shows "(n, v) \<in> set (errors l)
    \<or> (\<exists>a r e. (a, r, e) \<in> set evs \<and> n = get_name a
      \<and> ((\<exists>t. e = Some (APIError t) \<and> v = ErrText t)
         \<or> (\<exists>t. e = Some (OperationFailedError t) \<and> v = ErrText t)
         \<or> (\<exists>x. e = Some (OtherError x) \<and> v = ErrExc (OtherError x))))"
  using assms
proof (induction evs arbitrary: l)
  case Nil
  then show ?case by simp
next
  case (Cons ev evs)
  obtain a r e where ev: "ev = (a, r, e)" by (cases ev) auto
  from Cons.prems(1) obtain l1 where l1: "handle_event get_name (a, r, e) l = Inr l1"
    and rest: "drain get_name evs l1 = Inr l'"
    unfolding ev by (auto split: sum.splits)
  from Cons.IH [OF rest Cons.prems(2)] show ?case
  proof
    assume "(n, v) \<in> set (errors l1)"
    from handle_event_entries [OF l1 this] show ?thesis
    proof
      assume "(n, v) \<in> set (errors l)"
      then show ?thesis by simp
    next
      assume h: "n = get_name a
        \<and> ((\<exists>t. e = Some (APIError t) \<and> v = ErrText t)
           \<or> (\<exists>t. e = Some (OperationFailedError t) \<and> v = ErrText t)
           \<or> (\<exists>x. e = Some (OtherError x) \<and> v = ErrExc (OtherError x)))"
      have "(a, r, e) \<in> set (ev # evs)" by (simp add: ev)
      with h show ?thesis by blast
    qed
  next
    assume "\<exists>a r e. (a, r, e) \<in> set evs \<and> n = get_name a
      \<and> ((\<exists>t. e = Some (APIError t) \<and> v = ErrText t)
         \<or> (\<exists>t. e = Some (OperationFailedError t) \<and> v = ErrText t)
         \<or> (\<exists>x. e = Some (OtherError x) \<and> v = ErrExc (OtherError x)))"
    then obtain a' r' e' where "(a', r', e') \<in> set evs" and "n = get_name a'"
      and "(\<exists>t. e' = Some (APIError t) \<and> v = ErrText t)
         \<or> (\<exists>t. e' = Some (OperationFailedError t) \<and> v = ErrText t)
         \<or> (\<exists>x. e' = Some (OtherError x) \<and> v = ErrExc (OtherError x))"
      by blast
    moreover from this(1) have "(a', r', e') \<in> set (ev # evs)" by simp
    ultimately show ?thesis by blast
  qed
qed

lemma summary_lines:
  "map (error_line str_of) es =
     map (\<lambda>(n, v). SWrite ([LF] @ ''ERROR: for '' @ n @ ''  ''
        @ (case v of ErrText t \<Rightarrow> t | ErrExc e \<Rightarrow> str_of e) @ [LF])) es"
proof -
  have "render str_of v = (case v of ErrText t \<Rightarrow> t | ErrExc e \<Rightarrow> str_of e)" for v
    by (cases v) simp_all
  then show ?thesis
    by (simp add: error_line_def case_prod_beta)
qed

text \<open>
  C6. Take the events yielded in a run, and among them the upstream failure of an
  object. The loop handles it by writing the status \<open>error\<close> on the line of the
  object and by nothing else: with progress enabled the stream gets the cursor
  sequence of \<open>write\<close> with the text \<open><message> <name> ... error\<close>, and
  \<open>errors\<close>, the results and the error to re-raise stay as they were. After the
  loop every entry of \<open>errors\<close> stems from the event of another object, an event
  that carries an exception other than the upstream failure, and has the name of that
  object as its key; so when the names of the objects are distinct the name of the
  object is no key of \<open>errors\<close>. The call writes one summary line for each entry of
  \<open>errors\<close> and no other, and \<open>errors\<close> is the dictionary it returns.
\<close>

theorem upstream_failure_not_in_error_map:
  assumes "reachable func get_deps objs s"
    and "yielded s = pre @ (obj, result, Some UpstreamError) # post"
  shows "\<exists>l1 l2 l'.
      drain get_name pre (before_loop objs get_name m) = Inr l1
    \<and> handle_event get_name (obj, result, Some UpstreamError) l1 = Inr l2
    \<and> drain get_name post l2 = Inr l'
    \<and> errors l2 = errors l1 \<and> results_list l2 = results_list l1
    \<and> error_to_reraise l2 = error_to_reraise l1
    \<and> stream (out l2) = stream (out l1) @
        (case m of
           None \<Rightarrow> []
         | Some t \<Rightarrow>
             [SWrite ([ESC] @ ''['' @ show_nat
                (length objs - first_index (map get_name objs) (get_name obj)) @ ''A''),
              SWrite ([ESC] @ ''[2K'' @ [CR]),
              SWrite (t @ '' '' @ get_name obj @ '' ... error'' @ [CR]),
              SWrite ([ESC] @ ''['' @ show_nat
                (length objs - first_index (map get_name objs) (get_name obj)) @ ''B''),
              SFlush])
    \<and> (\<exists>rest. stream (out l') = stream (out l2) @ rest)
    \<and> (\<forall>n v. (n, v) \<in> set (errors l') \<longrightarrow>
          (\<exists>a r e. (a, r, e) \<in> set (yielded s) \<and> a \<noteq> obj \<and> a \<in> set objs \<and> n = get_name a
            \<and> ((\<exists>t. e = Some (APIError t) \<and> v = ErrText t)
               \<or> (\<exists>t. e = Some (OperationFailedError t) \<and> v = ErrText t)
               \<or> (\<exists>x. e = Some (OtherError x) \<and> v = ErrExc (OtherError x)))))
    \<and> (inj_on get_name (set objs) \<longrightarrow> get_name obj \<notin> fst ` set (errors l'))
    \<and> parallel_execute objs get_name m str_of truthy (yielded s) =
        (stream (out l') @
           map (\<lambda>(n, v). SWrite ([LF] @ ''ERROR: for '' @ n @ ''  ''
              @ (case v of ErrText t \<Rightarrow> t | ErrExc e \<Rightarrow> str_of e) @ [LF])) (errors l'),
         case error_to_reraise l' of
           None \<Rightarrow> Returned (results_list l') (errors l')
         | Some e \<Rightarrow> if truthy e then Raised e else Returned (results_list l') (errors l'))"
proof -
  let ?ev = "(obj, result, Some UpstreamError)"
  from run_drain_split [OF assms, of get_name m] obtain l1 l2 l'
    where d1: "drain get_name pre (before_loop objs get_name m) = Inr l1"
      and h: "handle_event get_name ?ev l1 = Inr l2"
      and d2: "drain get_name post l2 = Inr l'"
      and d: "drain get_name (yielded s) (before_loop objs get_name m) = Inr l'"
    by blast
  have mem: "?ev \<in> set (yielded s)"
    using assms(2) by simp
  have obj: "obj \<in> set objs"
    using yielded_registered [OF assms(1) mem] by simp
  have m1: "msg (out l1) = m"
    and li1: "lines (out l1) = (if m = None then [] else map get_name objs)"
    using drain_fields [OF d1] by (simp_all add: before_loop_fields)
  from h obtain w where w: "writer_write (out l1) (get_name obj) ''error'' = Inr w"
    and l2: "l2 = l1\<lparr>out := w\<rparr>"
    by (auto split: sum.splits)
  have same: "errors l2 = errors l1 \<and> results_list l2 = results_list l1
      \<and> error_to_reraise l2 = error_to_reraise l1"
    using l2 by simp
  have st: "stream (out l2) = stream (out l1) @
        (case m of
           None \<Rightarrow> []
         | Some t \<Rightarrow>
             [SWrite ([ESC] @ ''['' @ show_nat
                (length objs - first_index (map get_name objs) (get_name obj)) @ ''A''),
              SWrite ([ESC] @ ''[2K'' @ [CR]),
              SWrite (t @ '' '' @ get_name obj @ '' ... error'' @ [CR]),
              SWrite ([ESC] @ ''['' @ show_nat
                (length objs - first_index (map get_name objs) (get_name obj)) @ ''B''),
              SFlush])"
  proof (cases m)
    case None
    then have "w = out l1"
      using w m1 by (simp add: writer_write_def)
    with None l2 show ?thesis by simp
  next
    case (Some t)
    have "get_name obj \<in> set (lines (out l1))"
      using li1 Some obj by simp
    from writer_write_stream [of "out l1" t, OF _ this, of "''error''"] m1 Some w li1
    show ?thesis
      using l2 by auto
  qed
  have ext: "\<exists>rest. stream (out l') = stream (out l2) @ rest"
    using d2 by (rule drain_extends)
  have prov: "\<exists>a r e. (a, r, e) \<in> set (yielded s) \<and> a \<noteq> obj \<and> a \<in> set objs \<and> n = get_name a
            \<and> ((\<exists>t. e = Some (APIError t) \<and> v = ErrText t)
               \<or> (\<exists>t. e = Some (OperationFailedError t) \<and> v = ErrText t)
               \<or> (\<exists>x. e = Some (OtherError x) \<and> v = ErrExc (OtherError x)))"
    if nv: "(n, v) \<in> set (errors l')" for n v
  proof -
    from drain_entries [OF d nv] obtain a r e
      where a: "(a, r, e) \<in> set (yielded s)" and n: "n = get_name a"
        and e: "(\<exists>t. e = Some (APIError t) \<and> v = ErrText t)
               \<or> (\<exists>t. e = Some (OperationFailedError t) \<and> v = ErrText t)
               \<or> (\<exists>x. e = Some (OtherError x) \<and> v = ErrExc (OtherError x))"
      by (auto simp: before_loop_fields)
    have "a \<noteq> obj"
    proof
      assume "a = obj"
      then have "(a, r, e) = ?ev"
        using yielded_event_of_object [OF assms(1) a mem] by simp
      with e show False by auto
    qed
    moreover have "a \<in> set objs"
      using yielded_registered [OF assms(1) a] by simp
    ultimately show ?thesis using a n e by blast
  qed
  have key: "get_name obj \<notin> fst ` set (errors l')" if inj: "inj_on get_name (set objs)"
  proof
    assume "get_name obj \<in> fst ` set (errors l')"
    then obtain v where "(get_name obj, v) \<in> set (errors l')" by auto
    from prov [OF this] obtain a where "a \<noteq> obj" "a \<in> set objs" "get_name obj = get_name a"
      by blast
    with inj obj show False by (auto dest: inj_onD)
  qed
  have pe: "parallel_execute objs get_name m str_of truthy (yielded s) =
        (stream (out l') @
           map (\<lambda>(n, v). SWrite ([LF] @ ''ERROR: for '' @ n @ ''  ''
              @ (case v of ErrText t \<Rightarrow> t | ErrExc e \<Rightarrow> str_of e) @ [LF])) (errors l'),
         case error_to_reraise l' of
           None \<Rightarrow> Returned (results_list l') (errors l')
         | Some e \<Rightarrow> if truthy e then Raised e else Returned (results_list l') (errors l'))"
    using parallel_execute_drained [OF d, of str_of truthy]
    by (simp only: summary_lines)
  show ?thesis
    using d1 h d2 same st ext prov key pe by blast
qed


lemma inj_obj_name_2: "inj_on obj_name (set [0, 1])"
  by (simp add: inj_on_def obj_name_def show_nat.simps digit_char_def)


theorem upstream_failure_not_in_error_map_witness:
  "(\<exists>l1 l2 :: (nat, string) locals.
      drain obj_name [(0 :: nat, None, Some (APIError ''boom''))]
        (before_loop [0, 1] obj_name (Some ''Starting'')) = Inr l1
    \<and> handle_event obj_name (1, None, Some UpstreamError) l1 = Inr l2
    \<and> errors l2 = errors l1
    \<and> stream (out l2) = stream (out l1) @
        [SWrite ([ESC] @ ''[1A''), SWrite ([ESC] @ ''[2K'' @ [CR]),
         SWrite (''Starting svc1 ... error'' @ [CR]), SWrite ([ESC] @ ''[1B''), SFlush]
    \<and> obj_name 1 \<notin> fst ` set (errors l2))
   \<and> parallel_execute [0, 1] obj_name (Some ''Starting'') str_exn truthy_len
        (yielded (run work_boom deps_chain
           [Feed [0, 1], Work 0, Get, Feed [1], Get, Feed [], Get] (init [0, 1])))
      = ([SWrite (''Starting svc0 ... '' @ [CR, LF]), SFlush,
          SWrite (''Starting svc1 ... '' @ [CR, LF]), SFlush,
          SWrite ([ESC] @ ''[2A''), SWrite ([ESC] @ ''[2K'' @ [CR]),
          SWrite (''Starting svc0 ... error'' @ [CR]), SWrite ([ESC] @ ''[2B''), SFlush,
          SWrite ([ESC] @ ''[1A''), SWrite ([ESC] @ ''[2K'' @ [CR]),
          SWrite (''Starting svc1 ... error'' @ [CR]), SWrite ([ESC] @ ''[1B''), SFlush,
          SWrite ([LF] @ ''ERROR: for svc0  boom'' @ [LF])],
         Returned [] [(''svc0'', ErrText ''boom'')])"
proof -
  define s :: "(nat, nat, string) sys" where
    "s = run work_boom deps_chain
       [Feed [0, 1], Work 0, Get, Feed [1], Get, Feed [], Get] (init [0, 1])"
  have r: "reachable work_boom deps_chain [0, 1] s"
    unfolding s_def by (rule run_reachable [OF reach_init])
  have y: "yielded s = [(0, None, Some (APIError ''boom''))] @ (1, None, Some UpstreamError) # []"
    unfolding s_def by code_simp
  have num: "show_nat (length [0, 1 :: nat] - first_index (map obj_name [0, 1]) ''svc1'')
      = ''1''"
    by code_simp
  have pe: "parallel_execute [0, 1] obj_name (Some ''Starting'') str_exn truthy_len (yielded s)
      = ([SWrite (''Starting svc0 ... '' @ [CR, LF]), SFlush,
          SWrite (''Starting svc1 ... '' @ [CR, LF]), SFlush,
          SWrite ([ESC] @ ''[2A''), SWrite ([ESC] @ ''[2K'' @ [CR]),
          SWrite (''Starting svc0 ... error'' @ [CR]), SWrite ([ESC] @ ''[2B''), SFlush,
          SWrite ([ESC] @ ''[1A''), SWrite ([ESC] @ ''[2K'' @ [CR]),
          SWrite (''Starting svc1 ... error'' @ [CR]), SWrite ([ESC] @ ''[1B''), SFlush,
          SWrite ([LF] @ ''ERROR: for svc0  boom'' @ [LF])],
         Returned [] [(''svc0'', ErrText ''boom'')])"
    unfolding s_def by code_simp
  from upstream_failure_not_in_error_map
    [OF r y, of obj_name "Some ''Starting''", unfolded option.case]
  obtain l1 l2 l' :: "(nat, string) locals"
    where d1: "drain obj_name [(0, None, Some (APIError ''boom''))]
        (before_loop [0, 1] obj_name (Some ''Starting'')) = Inr l1"
      and h: "handle_event obj_name (1, None, Some UpstreamError) l1 = Inr l2"
      and d2: "drain obj_name [] l2 = Inr l'"
      and e: "errors l2 = errors l1"
      and st: "stream (out l2) = stream (out l1) @
        [SWrite ([ESC] @ ''['' @ show_nat
            (length [0, 1 :: nat] - first_index (map obj_name [0, 1]) (obj_name 1)) @ ''A''),
         SWrite ([ESC] @ ''[2K'' @ [CR]),
         SWrite (''Starting'' @ '' '' @ obj_name 1 @ '' ... error'' @ [CR]),
         SWrite ([ESC] @ ''['' @ show_nat
            (length [0, 1 :: nat] - first_index (map obj_name [0, 1]) (obj_name 1)) @ ''B''),
         SFlush]"
      and k: "inj_on obj_name (set [0, 1]) \<longrightarrow> obj_name 1 \<notin> fst ` set (errors l')"
    by blast
  have l': "l' = l2" using d2 by simp
  have nm: "obj_name 1 = ''svc1''" by code_simp
  have st': "stream (out l2) = stream (out l1) @
        [SWrite ([ESC] @ ''[1A''), SWrite ([ESC] @ ''[2K'' @ [CR]),
         SWrite (''Starting svc1 ... error'' @ [CR]), SWrite ([ESC] @ ''[1B''), SFlush]"
    using st by (simp only: nm num) simp
  have k': "obj_name 1 \<notin> fst ` set (errors l2)"
    using k inj_obj_name_2 l' by blast
  have "\<exists>l1 l2 :: (nat, string) locals.
      drain obj_name [(0 :: nat, None, Some (APIError ''boom''))]
        (before_loop [0, 1] obj_name (Some ''Starting'')) = Inr l1
    \<and> handle_event obj_name (1, None, Some UpstreamError) l1 = Inr l2
    \<and> errors l2 = errors l1
    \<and> stream (out l2) = stream (out l1) @
        [SWrite ([ESC] @ ''[1A''), SWrite ([ESC] @ ''[2K'' @ [CR]),
         SWrite (''Starting svc1 ... error'' @ [CR]), SWrite ([ESC] @ ''[1B''), SFlush]
    \<and> obj_name 1 \<notin> fst ` set (errors l2)"
    using d1 h e st' k' by blast
  with pe show ?thesis
    unfolding s_def by blast
qed

lemma handle_event_results:
  assumes "handle_event get_name ev l = Inr l'"
  shows "results_list l' = results_list l
    @ map (fst \<circ> snd) (filter (\<lambda>ev. ev_exception ev = None) [ev])"
proof -
  obtain obj r e where ev: "ev = (obj, r, e)" by (cases ev) auto
  show ?thesis
  proof (cases e)
    case None
    with assms ev show ?thesis by (auto split: sum.splits)
  next
    case (Some x)
    with assms ev show ?thesis by (cases x) (auto split: sum.splits)
  qed
qed

lemma drain_results:
  assumes "drain get_name evs l = Inr l'"
  shows "results_list l' = results_list l
    @ map (fst \<circ> snd) (filter (\<lambda>ev. ev_exception ev = None) evs)"
  using assms
proof (induction evs arbitrary: l)
  case Nil
  then show ?case by simp
next
  case (Cons ev evs)
  from Cons.prems obtain l1 where l1: "handle_event get_name ev l = Inr l1"
    and rest: "drain get_name evs l1 = Inr l'"
    by (auto split: sum.splits)
  from Cons.IH [OF rest] handle_event_results [OF l1] show ?case by simp
qed

lemma handle_event_keeps_reraise:
  assumes "handle_event get_name ev l = Inr l'"
    and "\<forall>y. ev_exception ev \<noteq> Some (OtherError y)"
  shows "error_to_reraise l' = error_to_reraise l"
proof -
  obtain obj r e where ev: "ev = (obj, r, e)" by (cases ev) auto
  show ?thesis
  proof (cases e)
    case None
    with assms ev show ?thesis by (auto split: sum.splits)
  next
    case (Some x)
    with assms ev show ?thesis by (cases x) (auto split: sum.splits)
  qed
qed

lemma drain_keeps_reraise:
  assumes "drain get_name evs l = Inr l'"
    and "\<forall>ev \<in> set evs. \<forall>y. ev_exception ev \<noteq> Some (OtherError y)"
  shows "error_to_reraise l' = error_to_reraise l"
  using assms
proof (induction evs arbitrary: l)
  case Nil
  then show ?case by simp
next
  case (Cons ev evs)
  from Cons.prems(1) obtain l1 where l1: "handle_event get_name ev l = Inr l1"
    and rest: "drain get_name evs l1 = Inr l'"
    by (auto split: sum.splits)
  have "error_to_reraise l1 = error_to_reraise l"
    using handle_event_keeps_reraise [OF l1] Cons.prems(2) by simp
  moreover have "error_to_reraise l' = error_to_reraise l1"
    using Cons.IH [OF rest] Cons.prems(2) by simp
  ultimately show ?case by simp
qed

lemma last_unexpected_event:
  assumes "(obj, r, Some (OtherError x)) \<in> set evs"
  shows "\<exists>pre' obj' r' x' post'. evs = pre' @ (obj', r', Some (OtherError x')) # post'
    \<and> (\<forall>ev \<in> set post'. \<forall>y. ev_exception ev \<noteq> Some (OtherError y))"
proof -
  have "\<exists>ev \<in> set evs. \<exists>y. ev_exception ev = Some (OtherError y)"
    using assms by force
  from split_list_last_prop [OF this] obtain pre' ev post'
    where sp: "evs = pre' @ ev # post'" and p: "\<exists>y. ev_exception ev = Some (OtherError y)"
      and np: "\<forall>z \<in> set post'. \<not> (\<exists>y. ev_exception z = Some (OtherError y))"
    by blast
  obtain obj' r' e' where ev: "ev = (obj', r', e')" by (cases ev) auto
  from p ev obtain x' where "e' = Some (OtherError x')" by auto
  with sp ev np show ?thesis by blast
qed

lemma run_reraise:
  assumes "drain get_name (pre @ (obj, r, Some (OtherError x)) # post) l = Inr l'"
    and "\<forall>ev \<in> set post. \<forall>y. ev_exception ev \<noteq> Some (OtherError y)"
  shows "error_to_reraise l' = Some (OtherError x)"
proof -
  from assms(1) obtain l1 l2 where "drain get_name pre l = Inr l1"
    and h: "handle_event get_name (obj, r, Some (OtherError x)) l1 = Inr l2"
    and d2: "drain get_name post l2 = Inr l'"
    by (auto simp: drain_append split: sum.splits)
  from h have "error_to_reraise l2 = Some (OtherError x)" by auto
  with drain_keeps_reraise [OF d2 assms(2)] show ?thesis by simp
qed

text \<open>
  C5, as amended. Take the events yielded in a run, and among them an unexpected
  failure of an object. The loop handles it by storing the exception object itself
  under the name of the object (\<open>format\<close> renders it as text only when the summary
  line is written) and by recording it as the error to re-raise; it writes nothing, and
  the entries under other names and the results stay as they were. The loop then goes
  on to the end of the events: the results after the loop are those of all the events
  that carry no exception, in their order. The call then writes one summary line for
  each entry of \<open>errors\<close>, and after that, when the exception of the last
  unexpected failure among the events is true in a Boolean test, raises that
  exception.
\<close>

theorem unexpected_failure_recorded_then_reraised:
  assumes "reachable func get_deps objs s"
    and "yielded s = pre @ (obj, result, Some (OtherError x)) # post"
  shows "\<exists>l1 l2 l'.
      drain get_name pre (before_loop objs get_name m) = Inr l1
    \<and> handle_event get_name (obj, result, Some (OtherError x)) l1 = Inr l2
    \<and> drain get_name post l2 = Inr l'
    \<and> map_of (errors l2) (get_name obj) = Some (ErrExc (OtherError x))
    \<and> (\<forall>n. n \<noteq> get_name obj \<longrightarrow> map_of (errors l2) n = map_of (errors l1) n)
    \<and> error_to_reraise l2 = Some (OtherError x)
    \<and> out l2 = out l1 \<and> results_list l2 = results_list l1
    \<and> results_list l' = map (fst \<circ> snd) (filter (\<lambda>ev. ev_exception ev = None) (yielded s))
    \<and> fst (parallel_execute objs get_name m str_of truthy (yielded s)) =
        stream (out l') @
          map (\<lambda>(n, v). SWrite ([LF] @ ''ERROR: for '' @ n @ ''  ''
             @ (case v of ErrText t \<Rightarrow> t | ErrExc e \<Rightarrow> str_of e) @ [LF])) (errors l')
    \<and> (\<exists>pre' obj' r' x' post'.
          yielded s = pre' @ (obj', r', Some (OtherError x')) # post'
        \<and> (\<forall>ev \<in> set post'. \<forall>y. ev_exception ev \<noteq> Some (OtherError y)))
    \<and> (\<forall>pre' obj' r' x' post'.
          yielded s = pre' @ (obj', r', Some (OtherError x')) # post'
        \<and> (\<forall>ev \<in> set post'. \<forall>y. ev_exception ev \<noteq> Some (OtherError y))
        \<and> truthy (OtherError x') \<longrightarrow>
          snd (parallel_execute objs get_name m str_of truthy (yielded s))
            = Raised (OtherError x'))"
proof -
  let ?ev = "(obj, result, Some (OtherError x))"
  from run_drain_split [OF assms, of get_name m] obtain l1 l2 l'
    where d1: "drain get_name pre (before_loop objs get_name m) = Inr l1"
      and h: "handle_event get_name ?ev l1 = Inr l2"
      and d2: "drain get_name post l2 = Inr l'"
      and d: "drain get_name (yielded s) (before_loop objs get_name m) = Inr l'"
    by blast
  from h have l2: "l2 = l1\<lparr>errors := AList.update (get_name obj) (ErrExc (OtherError x)) (errors l1),
      error_to_reraise := Some (OtherError x)\<rparr>"
    by simp
  have a: "map_of (errors l2) (get_name obj) = Some (ErrExc (OtherError x))"
    and b: "\<forall>n. n \<noteq> get_name obj \<longrightarrow> map_of (errors l2) n = map_of (errors l1) n"
    and c: "error_to_reraise l2 = Some (OtherError x)"
    and e: "out l2 = out l1 \<and> results_list l2 = results_list l1"
    unfolding l2 by (simp_all add: update_conv')
  have res: "results_list l'
      = map (fst \<circ> snd) (filter (\<lambda>ev. ev_exception ev = None) (yielded s))"
    using drain_results [OF d] by (simp add: before_loop_fields)
  note pe = parallel_execute_drained [OF d, of str_of truthy]
  have f: "fst (parallel_execute objs get_name m str_of truthy (yielded s)) =
        stream (out l') @
          map (\<lambda>(n, v). SWrite ([LF] @ ''ERROR: for '' @ n @ ''  ''
             @ (case v of ErrText t \<Rightarrow> t | ErrExc e \<Rightarrow> str_of e) @ [LF])) (errors l')"
    unfolding pe by (simp only: summary_lines fst_conv)
  have "?ev \<in> set (yielded s)" using assms(2) by simp
  from last_unexpected_event [OF this]
  have g1: "\<exists>pre' obj' r' x' post'.
          yielded s = pre' @ (obj', r', Some (OtherError x')) # post'
        \<and> (\<forall>ev \<in> set post'. \<forall>y. ev_exception ev \<noteq> Some (OtherError y))" .
  have g2: "\<forall>pre' obj' r' x' post'.
          yielded s = pre' @ (obj', r', Some (OtherError x')) # post'
        \<and> (\<forall>ev \<in> set post'. \<forall>y. ev_exception ev \<noteq> Some (OtherError y))
        \<and> truthy (OtherError x') \<longrightarrow>
          snd (parallel_execute objs get_name m str_of truthy (yielded s))
            = Raised (OtherError x')"
  proof (intro allI impI, elim conjE)
    fix pre' obj' r' x' post'
    assume sp: "yielded s = pre' @ (obj', r', Some (OtherError x')) # post'"
      and np: "\<forall>ev \<in> set post'. \<forall>y. ev_exception ev \<noteq> Some (OtherError y)"
      and tr: "truthy (OtherError x')"
    have "error_to_reraise l' = Some (OtherError x')"
      using run_reraise [OF d [unfolded sp] np] .
    with tr show "snd (parallel_execute objs get_name m str_of truthy (yielded s))
        = Raised (OtherError x')"
      unfolding pe by simp
  qed
  show ?thesis
    using d1 h d2 a b c e res f g1 g2 by blast
qed

theorem unexpected_failure_recorded_then_reraised_witness:
  "(\<exists>l2 l' :: (nat, string) locals.
      handle_event obj_name (1 :: nat, None, Some (OtherError ''crash 1''))
        (before_loop [0, 1, 2] obj_name None) = Inr l2
    \<and> map_of (errors l2) (obj_name 1) = Some (ErrExc (OtherError ''crash 1''))
    \<and> drain obj_name [(2, Some 12, None), (0, None, Some (OtherError ''crash 0''))] l2 = Inr l'
    \<and> results_list l' = [Some 12])
   \<and> parallel_execute [0, 1, 2] obj_name None str_exn truthy_len
        (yielded (run work_crash no_deps
           [Feed [0, 1, 2], Work 1, Work 2, Work 0, Get, Feed [], Get, Feed [], Get, Feed [], Get]
           (init [0, 1, 2])))
      = ([SWrite ([LF] @ ''ERROR: for svc1  crash 1'' @ [LF]),
          SWrite ([LF] @ ''ERROR: for svc0  crash 0'' @ [LF])],
         Raised (OtherError ''crash 0''))"
proof -
  define s :: "(nat, nat, string) sys" where
    "s = run work_crash no_deps
       [Feed [0, 1, 2], Work 1, Work 2, Work 0, Get, Feed [], Get, Feed [], Get, Feed [], Get]
       (init [0, 1, 2])"
  have r: "reachable work_crash no_deps [0, 1, 2] s"
    unfolding s_def by (rule run_reachable [OF reach_init])
  have y: "yielded s = [] @ (1, None, Some (OtherError ''crash 1''))
      # [(2, Some 12, None), (0, None, Some (OtherError ''crash 0''))]"
    unfolding s_def by code_simp
  have y2: "yielded s = [(1, None, Some (OtherError ''crash 1'')), (2, Some 12, None)]
      @ (0, None, Some (OtherError ''crash 0'')) # []"
    unfolding s_def by code_simp
  have rs: "map (fst \<circ> snd) (filter (\<lambda>ev. ev_exception ev = None) (yielded s)) = [Some 12]"
    unfolding s_def by code_simp
  have f: "fst (parallel_execute [0, 1, 2] obj_name None str_exn truthy_len (yielded s))
      = [SWrite ([LF] @ ''ERROR: for svc1  crash 1'' @ [LF]),
         SWrite ([LF] @ ''ERROR: for svc0  crash 0'' @ [LF])]"
    unfolding s_def by code_simp
  have tr: "truthy_len (OtherError ''crash 0'')"
    by (simp add: truthy_len_def)
  from unexpected_failure_recorded_then_reraised [OF r y, of obj_name None str_exn truthy_len]
  obtain l1 l2 l' :: "(nat, string) locals"
    where d1: "drain obj_name [] (before_loop [0, 1, 2] obj_name None) = Inr l1"
      and h: "handle_event obj_name (1, None, Some (OtherError ''crash 1'')) l1 = Inr l2"
      and d2: "drain obj_name [(2, Some 12, None), (0, None, Some (OtherError ''crash 0''))] l2
        = Inr l'"
      and a: "map_of (errors l2) (obj_name 1) = Some (ErrExc (OtherError ''crash 1''))"
      and res: "results_list l'
        = map (fst \<circ> snd) (filter (\<lambda>ev. ev_exception ev = None) (yielded s))"
      and g2: "\<forall>pre' obj' r' x' post'.
          yielded s = pre' @ (obj', r', Some (OtherError x')) # post'
        \<and> (\<forall>ev \<in> set post'. \<forall>y. ev_exception ev \<noteq> Some (OtherError y))
        \<and> truthy_len (OtherError x') \<longrightarrow>
          snd (parallel_execute [0, 1, 2] obj_name None str_exn truthy_len (yielded s))
            = Raised (OtherError x')"
    by blast
  have l1: "l1 = before_loop [0, 1, 2] obj_name None" using d1 by simp
  have "snd (parallel_execute [0, 1, 2] obj_name None str_exn truthy_len (yielded s))
      = Raised (OtherError ''crash 0'')"
    using g2 [rule_format, of "[(1, None, Some (OtherError ''crash 1'')), (2, Some 12, None)]"
        0 None "''crash 0''" "[]"] y2 tr
    by simp
  with f have pe: "parallel_execute [0, 1, 2] obj_name None str_exn truthy_len (yielded s)
      = ([SWrite ([LF] @ ''ERROR: for svc1  crash 1'' @ [LF]),
          SWrite ([LF] @ ''ERROR: for svc0  crash 0'' @ [LF])],
         Raised (OtherError ''crash 0''))"
    by (simp add: prod_eq_iff)
  have "\<exists>l2 l' :: (nat, string) locals.
      handle_event obj_name (1 :: nat, None, Some (OtherError ''crash 1''))
        (before_loop [0, 1, 2] obj_name None) = Inr l2
    \<and> map_of (errors l2) (obj_name 1) = Some (ErrExc (OtherError ''crash 1''))
    \<and> drain obj_name [(2, Some 12, None), (0, None, Some (OtherError ''crash 0''))] l2 = Inr l'
    \<and> results_list l' = [Some 12]"
    using h [unfolded l1] a d2 res [unfolded rs] by blast
  with pe show ?thesis
    unfolding s_def by blast
qed

theorem unexpected_failure_entry_counterexample:
  "handle_event obj_name (0 :: nat, None :: nat option, Some (OtherError ''crash 0''))
     \<lparr>out = ParallelStreamWriter [] None, results_list = [], errors = [],
      error_to_reraise = None\<rparr>
   = Inr \<lparr>out = ParallelStreamWriter [] None, results_list = [],
      errors = [(''svc0'', ErrExc (OtherError ''crash 0''))],
      error_to_reraise = Some (OtherError ''crash 0'')\<rparr>
   \<and> ErrExc (OtherError ''crash 0'') \<noteq> ErrText (str_exn (OtherError ''crash 0''))"
  by (simp add: obj_name_def show_nat.simps digit_char_def)




end
